theory Spec2Isabelle
  imports Complex_Main "HOL-Library.Multiset" "HOL-Library.List_Lexorder" "HOL-Library.Char_ord"
    "HOL-Library.Product_Lexorder" "HOL-Library.AList" "HOL-Library.While_Combinator"
begin

section \<open>Numbers, instants and account identifiers\<close>

text \<open>
  The engine of \<^verbatim>\<open>src/backend/engine.py\<close> computes amounts, scores and confidences in
  Python floats. They are embedded as real numbers: every float is one, and the
  comparisons against the thresholds are those of the source. The rounding error of the
  binary operations is not part of this model. Instants are seconds on the real line,
  so that \<^verbatim>\<open>timedelta(hours=72)\<close> is \<open>72 * 3600\<close>. Account identifiers are strings,
  ordered as Python orders them (by character code, then by length).
\<close>

type_synonym account = string
type_synonym instant = real

text \<open>
  \<^verbatim>\<open>round(x, 1)\<close>: Python rounds the exact value of the float to the nearest multiple
  of one tenth, ties to the even multiple.
\<close>

definition round_half_even :: "real \<Rightarrow> int" where
  "round_half_even x =
     (let f = \<lfloor>x\<rfloor>; d = x - of_int f
      in if d < 1 / 2 then f else if 1 / 2 < d then f + 1 else if even f then f else f + 1)"

definition round1 :: "real \<Rightarrow> real" where
  "round1 x = of_int (round_half_even (x * 10)) / 10"

definition FLAG_THRESHOLD :: real where
  "FLAG_THRESHOLD = 25"

text \<open>
  The last step of \<^verbatim>\<open>calculate_suspicion_scores\<close> for a node (lines 1554-1559):
  \<^verbatim>\<open>
    score = round(max(0.0, min(100.0, score)), 1)
    if score < self.FLAG_THRESHOLD:
        score = 0.0
  \<close>
\<close>

definition apply_flag_threshold :: "real \<Rightarrow> real" where
  "apply_flag_threshold score =
     (let score1 = round1 (max 0 (min 100 score))
      in if score1 < FLAG_THRESHOLD then 0 else score1)"


section \<open>The transaction multigraph\<close>

text \<open>
  \<^verbatim>\<open>load_data\<close> adds one edge per row to a \<^verbatim>\<open>networkx.MultiDiGraph\<close>, in row order. The
  graph is the list of its edges in that order; nodes, predecessors and successors are
  iterated by networkx in the order in which they were first inserted.
\<close>

record txn =
  transaction_id :: string
  sender_id :: account
  receiver_id :: account
  amount :: real
  timestamp :: instant

type_synonym graph = "txn list"

definition add_node :: "account list \<Rightarrow> account \<Rightarrow> account list" where
  "add_node ns n = (if n \<in> set ns then ns else ns @ [n])"

definition nodes :: "graph \<Rightarrow> account list" where
  "nodes g = foldl (\<lambda>ns e. add_node (add_node ns (sender_id e)) (receiver_id e)) [] g"

definition predecessors :: "graph \<Rightarrow> account \<Rightarrow> account list" where
  "predecessors g n = foldl add_node [] (map sender_id (filter (\<lambda>e. receiver_id e = n) g))"

definition successors :: "graph \<Rightarrow> account \<Rightarrow> account list" where
  "successors g n = foldl add_node [] (map receiver_id (filter (\<lambda>e. sender_id e = n) g))"

text \<open>\<^verbatim>\<open>G[u][v].items()\<close>: the parallel edges from \<open>u\<close> to \<open>v\<close>, in insertion order.\<close>

definition edges_between :: "graph \<Rightarrow> account \<Rightarrow> account \<Rightarrow> txn list" where
  "edges_between g u v = filter (\<lambda>e. sender_id e = u \<and> receiver_id e = v) g"

definition in_degree :: "graph \<Rightarrow> account \<Rightarrow> nat" where
  "in_degree g n = length (filter (\<lambda>e. receiver_id e = n) g)"

definition out_degree :: "graph \<Rightarrow> account \<Rightarrow> nat" where
  "out_degree g n = length (filter (\<lambda>e. sender_id e = n) g)"

section \<open>Rings and the engine state\<close>

text \<open>
  The dictionaries of \<^verbatim>\<open>_candidate_rings\<close>, of \<^verbatim>\<open>fraud_rings\<close> and of the
  \<^verbatim>\<open>suspicious_accounts\<close> array are records; the fields of the candidates and of the
  array entries carry a prefix where two dictionaries use one key. The
  \<^verbatim>\<open>explanation\<close> strings are not modelled.
\<close>

record candidate =
  members :: "account list"
  cand_pattern_type :: string
  cand_risk_score :: real
  confidence_score :: real
  core_account :: "account option"

record ring =
  ring_id :: string
  member_accounts :: "account list"
  pattern_type :: string
  risk_score :: real

record suspicious_account =
  account_id :: account
  suspicion_score :: real
  detected_patterns :: "string list"
  acc_ring_id :: string

text \<open>
  A smurfing candidate of \<^verbatim>\<open>_extract_smurf_candidates\<close>: the hub, the inbound
  transactions of the window and the outbound transactions up to 24 hours after it, each
  with its instant, its amount and its peer.
\<close>

record smurf_event =
  ev_ts :: instant
  ev_amt :: real
  ev_peer :: account

record smurf_candidate =
  sc_hub :: account
  sc_in_txns :: "smurf_event list"
  sc_out_txns :: "smurf_event list"
  sc_w_start :: instant
  sc_w_end :: instant

text \<open>
  The fields of \<^verbatim>\<open>ForensicsEngine\<close> that the stages after detection read and write.
  \<^verbatim>\<open>account_patterns\<close> is a \<^verbatim>\<open>defaultdict(set)\<close>: a total function, empty where nothing
  was stored. \<^verbatim>\<open>suspicion_scores\<close> is a dictionary iterated in insertion order: an
  association list, written with \<^const>\<open>AList.update\<close>.
\<close>

record engine =
  df :: "txn list option"
  G :: "graph option"
  account_patterns :: "account \<Rightarrow> string set"
  fraud_rings :: "ring list"
  suspicion_scores :: "(account \<times> real) list"
  velocity_accounts :: "account set"
  velocity_24h_accounts :: "account set"
  high_degree_hubs :: "account set"
  immune_accounts :: "account set"
  candidate_rings :: "candidate list"
  smurf_candidates :: "smurf_candidate list"
  median_degree :: real
  degree_std :: real
  median_tx_amount :: real
  amount_std :: real
  dataset_time_span :: real
  adaptive_ext_degree_limit :: int

text \<open>The engine as \<^verbatim>\<open>__init__\<close> leaves it (lines 146-176).\<close>

definition fresh_engine :: engine where
  "fresh_engine =
     \<lparr>df = None, G = None, account_patterns = (\<lambda>_. {}), fraud_rings = [],
      suspicion_scores = [], velocity_accounts = {}, velocity_24h_accounts = {},
      high_degree_hubs = {}, immune_accounts = {}, candidate_rings = [],
      smurf_candidates = [], median_degree = 2, degree_std = 1, median_tx_amount = 1000,
      amount_std = 500, dataset_time_span = 0, adaptive_ext_degree_limit = 2\<rparr>"

section \<open>Composite scoring and suppression\<close>

definition pattern_weights :: "string \<Rightarrow> real" where
  "pattern_weights p =
     (if p = ''cycle_length_3'' then 30
      else if p = ''cycle_length_4'' then 25
      else if p = ''cycle_length_5'' then 20
      else if p = ''shell_account'' then 20
      else if p = ''smurfing'' then 15
      else if p = ''fan_in'' then 15
      else if p = ''fan_out'' then 15
      else if p = ''structuring'' then 12
      else if p = ''high_velocity'' then 5
      else if p = ''high_velocity_24h'' then 10
      else if p = ''low_variance'' then 10
      else 0)"

definition STRUCTURAL_PATTERNS :: "string set" where
  "STRUCTURAL_PATTERNS =
     {''cycle_length_3'', ''cycle_length_4'', ''cycle_length_5'', ''shell_account'',
      ''smurfing'', ''fan_in'', ''fan_out'', ''structuring'', ''low_variance''}"

definition STRONG_FRAUD_PATTERNS :: "string set" where
  "STRONG_FRAUD_PATTERNS =
     {''cycle_length_3'', ''cycle_length_4'', ''cycle_length_5'', ''shell_account'',
      ''smurfing''}"

text \<open>
  First pass (lines 1488-1505): the score of one node from its labels, the velocity
  bonus and the anomaly bonus. The isolation forest is a black box: its normalised bonus
  is the parameter \<open>anomaly_bonus\<close>.
\<close>

definition preliminary_score :: "engine \<Rightarrow> (account \<Rightarrow> real) \<Rightarrow> account \<Rightarrow> real" where
  "preliminary_score e anomaly_bonus node =
     (let patterns = account_patterns e node;
          score = min (\<Sum>p\<in>patterns. pattern_weights p) 70;
          has_structural = (patterns \<inter> STRUCTURAL_PATTERNS \<noteq> {});
          score = (if node \<in> velocity_accounts e \<and> has_structural then score + 10
                   else if node \<in> velocity_24h_accounts e \<and> has_structural then score + 5
                   else score)
      in score + anomaly_bonus node)"

definition first_pass :: "engine \<Rightarrow> (account \<Rightarrow> real) \<Rightarrow> account list \<Rightarrow> (account \<rightharpoonup> real)" where
  "first_pass e anomaly_bonus ns =
     foldl (\<lambda>pre node. pre(node \<mapsto> preliminary_score e anomaly_bonus node)) Map.empty ns"

text \<open>\<^verbatim>\<open>preliminary_scores.get(n, 0)\<close>; the first pass stores a score for every node.\<close>

definition get0 :: "(account \<rightharpoonup> real) \<Rightarrow> account \<Rightarrow> real" where
  "get0 pre n = (case pre n of None \<Rightarrow> 0 | Some v \<Rightarrow> v)"

text \<open>
  Second pass (lines 1520-1530), one node: the dictionary \<^verbatim>\<open>preliminary_scores\<close> is
  read and written in place, and so are the labels.
\<close>

definition isolation_step ::
  "graph \<Rightarrow> (account \<rightharpoonup> real) \<times> (account \<Rightarrow> string set) \<Rightarrow> account \<Rightarrow>
   (account \<rightharpoonup> real) \<times> (account \<Rightarrow> string set)" where
  "isolation_step g st node =
     (let pre = fst st; pats = snd st
      in if get0 pre node \<le> 0 then st
         else
           let neighbors = set (predecessors g node) \<union> set (successors g node);
               flagged_neighbors = card {n \<in> neighbors. get0 pre n > 30}
           in if flagged_neighbors \<ge> 2
              then (pre(node \<mapsto> get0 pre node + 8),
                    pats(node := insert ''isolation_cluster'' (pats node)))
              else st)"

definition isolation_pass ::
  "graph \<Rightarrow> (account \<rightharpoonup> real) \<times> (account \<Rightarrow> string set) \<Rightarrow> account list \<Rightarrow>
   (account \<rightharpoonup> real) \<times> (account \<Rightarrow> string set)" where
  "isolation_pass g st ns = foldl (isolation_step g) st ns"

text \<open>Third pass (lines 1533-1559), one node: suppression, then the flag threshold.\<close>

definition suppressed_score ::
  "engine \<Rightarrow> (account \<Rightarrow> string set) \<Rightarrow> (account \<rightharpoonup> real) \<Rightarrow> account \<Rightarrow> real" where
  "suppressed_score e pats pre node =
     (let score = get0 pre node;
          patterns = pats node;
          active_patterns = patterns - {''isolation_cluster'', ''payroll'', ''merchant''};
          score = (if active_patterns \<subseteq> {''high_velocity'', ''high_velocity_24h'', ''low_variance''}
                   then 0 else score);
          has_strong_fraud = (patterns \<inter> STRONG_FRAUD_PATTERNS \<noteq> {});
          score = (if node \<in> immune_accounts e \<and> \<not> has_strong_fraud then 0 else score);
          score = (if node \<in> high_degree_hubs e \<and> \<not> has_strong_fraud then 0 else score)
      in apply_flag_threshold score)"

definition calculate_suspicion_scores :: "(account \<Rightarrow> real) \<Rightarrow> engine \<Rightarrow> engine" where
  "calculate_suspicion_scores anomaly_bonus e =
     (case G e of
        None \<Rightarrow> e
      | Some g \<Rightarrow>
          let ns = nodes g
          in if ns = [] then e
             else
               let pre = first_pass e anomaly_bonus ns;
                   st = isolation_pass g (pre, account_patterns e) ns;
                   scores = foldl (\<lambda>d node. AList.update node (suppressed_score e (snd st) (fst st) node) d)
                              (suspicion_scores e) ns
               in e\<lparr>account_patterns := snd st, suspicion_scores := scores\<rparr>)"

section \<open>The result document\<close>

text \<open>
  \<^verbatim>\<open>generate_json\<close> (lines 1564-1593): \<^verbatim>\<open>account_rings\<close> collects, per account, the ids
  of the rings that list it, in the order of \<^verbatim>\<open>fraud_rings\<close>.
\<close>

definition account_rings_add ::
  "(account \<Rightarrow> string list) \<Rightarrow> ring \<Rightarrow> (account \<Rightarrow> string list)" where
  "account_rings_add ar r =
     foldl (\<lambda>m acc. m(acc := m acc @ [ring_id r])) ar (member_accounts r)"

definition account_rings :: "ring list \<Rightarrow> (account \<Rightarrow> string list)" where
  "account_rings rs = foldl account_rings_add (\<lambda>_. []) rs"

definition suspicious_entry :: "engine \<Rightarrow> account \<Rightarrow> real \<Rightarrow> suspicious_account" where
  "suspicious_entry e acc score =
     \<lparr>account_id = acc,
      suspicion_score = score,
      detected_patterns = sorted_list_of_set (account_patterns e acc),
      acc_ring_id = (case account_rings (fraud_rings e) acc of [] \<Rightarrow> ''NONE'' | rid # _ \<Rightarrow> rid)\<rparr>"

definition suspicious_accounts :: "engine \<Rightarrow> suspicious_account list" where
  "suspicious_accounts e =
     sort_key (\<lambda>x. (- suspicion_score x, account_id x))
       (map (\<lambda>(acc, score). suspicious_entry e acc score)
          (filter (\<lambda>(acc, score). \<not> score \<le> 0) (suspicion_scores e)))"

section \<open>Global ring arbitration\<close>

text \<open>
  \<^verbatim>\<open>_arbitrate_rings\<close> (lines 1270-1369). Python sets are sets; \<^verbatim>\<open>sorted(s)\<close> of a set is
  \<^const>\<open>sorted_list_of_set\<close>. The loop \<^verbatim>\<open>for node in overlap\<close> runs over a set of strings,
  whose iteration order Python does not fix: it is the parameter \<open>iter\<close>, and it decides
  only the insertion order of \<^verbatim>\<open>ring_overlap_counts\<close>, hence which ring wins a tie of
  \<^verbatim>\<open>max\<close>.
\<close>

definition TYPE_PRIORITY :: "string \<Rightarrow> nat" where
  "TYPE_PRIORITY pt =
     (if pt = ''cycle'' then 0 else if pt = ''smurfing'' then 1
      else if pt = ''shell_network'' then 2 else 99)"

record arbitration =
  final_rings :: "ring list"
  used_nodes :: "account set"
  node_to_ring_idx :: "account \<rightharpoonup> nat"

text \<open>\<^verbatim>\<open>ring_overlap_counts[node_to_ring_idx[node]] += 1\<close> on a \<^verbatim>\<open>defaultdict(int)\<close>.\<close>

definition count_overlap ::
  "(account \<rightharpoonup> nat) \<Rightarrow> (nat \<times> nat) list \<Rightarrow> account \<Rightarrow> (nat \<times> nat) list" where
  "count_overlap idx counts node =
     (case idx node of
        None \<Rightarrow> counts
      | Some i \<Rightarrow>
          AList.update i (case map_of counts i of None \<Rightarrow> 1 | Some c \<Rightarrow> c + 1) counts)"

text \<open>\<^verbatim>\<open>max(d, key=d.get)\<close>: the first key, in insertion order, whose count is maximal.\<close>

fun max_key :: "(nat \<times> nat) list \<Rightarrow> (nat \<times> nat) option" where
  "max_key [] = None"
| "max_key (kc # rest) =
     Some (foldl (\<lambda>best kc'. if snd kc' > snd best then kc' else best) kc rest)"

definition merge_into :: "arbitration \<Rightarrow> candidate \<Rightarrow> nat \<Rightarrow> arbitration" where
  "merge_into st cand best_ring_idx =
     (let target_ring = final_rings st ! best_ring_idx;
          current_members = set (member_accounts target_ring);
          new_nodes = set (members cand) - current_members;
          new_nodes =
            (if pattern_type target_ring \<noteq> ''cycle''
             then let budget = 15 - int (card current_members)
                  in set (take (nat (max 0 budget)) (sorted_list_of_set new_nodes))
             else new_nodes);
          current_members = current_members \<union> new_nodes;
          target_ring = target_ring
            \<lparr>member_accounts := sorted_list_of_set current_members,
             risk_score := max (risk_score target_ring) (cand_risk_score cand)\<rparr>
      in st\<lparr>final_rings := (final_rings st)[best_ring_idx := target_ring],
            used_nodes := used_nodes st \<union> new_nodes,
            node_to_ring_idx :=
              (\<lambda>n. if n \<in> new_nodes then Some best_ring_idx else node_to_ring_idx st n)\<rparr>)"

definition accept_ring :: "arbitration \<Rightarrow> candidate \<Rightarrow> arbitration" where
  "accept_ring st cand =
     (let ring_members = sorted_list_of_set (set (members cand));
          ring_members =
            (if cand_pattern_type cand \<noteq> ''cycle'' \<and> length ring_members > 15
             then take 15 ring_members else ring_members)
      in if length ring_members < 3 then st
         else
           let ring_idx = length (final_rings st)
           in st\<lparr>final_rings := final_rings st @
                   [\<lparr>ring_id = [], member_accounts = ring_members,
                     pattern_type = cand_pattern_type cand,
                     risk_score = round1 (cand_risk_score cand)\<rparr>],
                 used_nodes := used_nodes st \<union> set ring_members,
                 node_to_ring_idx :=
                   (\<lambda>n. if n \<in> set ring_members then Some ring_idx
                        else node_to_ring_idx st n)\<rparr>)"

definition arbitrate_step ::
  "(account set \<Rightarrow> account list) \<Rightarrow> arbitration \<Rightarrow> candidate \<Rightarrow> arbitration" where
  "arbitrate_step iter st cand =
     (let members = set (members cand);
          overlap = members \<inter> used_nodes st;
          overlap_ratio =
            (if members \<noteq> {} then real (card overlap) / real (card members) else 0)
      in if overlap_ratio > 6 / 10
         then (case max_key (foldl (count_overlap (node_to_ring_idx st)) [] (iter overlap)) of
                 None \<Rightarrow> st
               | Some (best_ring_idx, _) \<Rightarrow> merge_into st cand best_ring_idx)
         else accept_ring st cand)"

text \<open>\<^verbatim>\<open>f"RING_{idx + 1:03d}"\<close>: decimal digits, padded with zeros to three.\<close>

function string_of_nat :: "nat \<Rightarrow> string" where
  "string_of_nat n =
     (if n < 10 then [char_of (48 + n)]
      else string_of_nat (n div 10) @ [char_of (48 + n mod 10)])"
  by pat_completeness auto
termination
  by (relation "measure id") auto

declare string_of_nat.simps [simp del]

definition ring_name :: "nat \<Rightarrow> string" where
  "ring_name idx =
     (let d = string_of_nat (idx + 1)
      in ''RING_'' @ replicate (3 - length d) CHR ''0'' @ d)"

definition assign_ring_ids :: "ring list \<Rightarrow> ring list" where
  "assign_ring_ids rs = map (\<lambda>(idx, r). r\<lparr>ring_id := ring_name idx\<rparr>) (enumerate 0 rs)"

definition arbitrate_rings ::
  "(account set \<Rightarrow> account list) \<Rightarrow> candidate list \<Rightarrow> ring list" where
  "arbitrate_rings iter candidates =
     (if candidates = [] then []
      else
        let sorted_cands =
              sort_key (\<lambda>c. (- confidence_score c, TYPE_PRIORITY (cand_pattern_type c))) candidates;
            st = foldl (arbitrate_step iter)
                   \<lparr>final_rings = [], used_nodes = {}, node_to_ring_idx = Map.empty\<rparr> sorted_cands;
            final_rings = sort_key (\<lambda>r. (- risk_score r, pattern_type r)) (final_rings st)
        in assign_ring_ids final_rings)"

section \<open>Business immunity\<close>

text \<open>
  \<^verbatim>\<open>_detect_business_immunity\<close> (lines 816-875) for one node: the inbound and outbound
  transactions with their peers, then the payroll test and, when it does not match, the
  merchant test.
\<close>

definition in_txns_of :: "graph \<Rightarrow> account \<Rightarrow> (real \<times> account) list" where
  "in_txns_of g node =
     concat (map (\<lambda>pred. map (\<lambda>d. (amount d, pred)) (edges_between g pred node))
               (predecessors g node))"

definition out_txns_of :: "graph \<Rightarrow> account \<Rightarrow> (real \<times> account) list" where
  "out_txns_of g node =
     concat (map (\<lambda>succ. map (\<lambda>d. (amount d, succ)) (edges_between g node succ))
               (successors g node))"

definition sender_volume :: "(real \<times> account) list \<Rightarrow> account \<Rightarrow> real" where
  "sender_volume txns peer = sum_list (map fst (filter (\<lambda>e. snd e = peer) txns))"

definition immunity_of :: "graph \<Rightarrow> account \<Rightarrow> string option" where
  "immunity_of g node =
     (let in_txns = in_txns_of g node;
          out_txns = out_txns_of g node;
          in_sum = sum_list (map fst in_txns);
          out_sum = sum_list (map fst out_txns);
          in_count = length in_txns;
          out_count = length out_txns;
          is_payroll =
            (in_count \<ge> 4 \<and> in_sum > 0 \<and>
             (let max_sender_vol = Max (sender_volume in_txns ` set (map snd in_txns));
                  dominant_ratio = max_sender_vol / in_sum;
                  no_redistribution = (out_count \<le> 3 \<or> (in_sum > 0 \<and> out_sum / in_sum < 1 / 10))
              in dominant_ratio > 7 / 10 \<and> no_redistribution));
          unique_senders = set (map snd in_txns);
          is_merchant =
            (card unique_senders \<ge> 10 \<and>
             (out_count \<le> 2 \<or> (in_sum > 0 \<and> out_sum / in_sum < 5 / 100)))
      in if is_payroll then Some ''payroll''
         else if is_merchant then Some ''merchant''
         else None)"

definition detect_business_immunity :: "engine \<Rightarrow> engine" where
  "detect_business_immunity e =
     (case G e of
        None \<Rightarrow> e
      | Some g \<Rightarrow>
          foldl (\<lambda>e node.
                   case immunity_of g node of
                     None \<Rightarrow> e
                   | Some kind \<Rightarrow>
                       e\<lparr>immune_accounts := insert node (immune_accounts e),
                         account_patterns :=
                           (account_patterns e)(node := insert kind (account_patterns e node))\<rparr>)
            e (nodes g))"

section \<open>Immune-member cleanup and pattern hierarchy\<close>

text \<open>
  Stage 1.5 of \<^verbatim>\<open>run_all\<close> (lines 1663-1677): the labels of an immune account are cut
  down to \<^verbatim>\<open>payroll\<close> and \<^verbatim>\<open>merchant\<close>, and immune accounts leave the candidate rings; a
  candidate left with fewer than three members is dropped.
\<close>

definition immune_keep :: "string set" where
  "immune_keep = {''payroll'', ''merchant''}"

definition clean_candidate :: "account set \<Rightarrow> candidate \<Rightarrow> candidate list" where
  "clean_candidate immune cand =
     (let clean_members = filter (\<lambda>m. m \<notin> immune) (members cand)
      in if length clean_members \<ge> 3 then [cand\<lparr>members := sort clean_members\<rparr>] else [])"

definition immune_cleanup :: "engine \<Rightarrow> engine" where
  "immune_cleanup e =
     e\<lparr>account_patterns :=
         (\<lambda>acc. if acc \<in> immune_accounts e then account_patterns e acc \<inter> immune_keep
                else account_patterns e acc),
       candidate_rings := concat (map (clean_candidate (immune_accounts e)) (candidate_rings e))\<rparr>"

text \<open>\<^verbatim>\<open>_apply_pattern_hierarchy\<close> (lines 1374-1404).\<close>

definition HIERARCHY :: "string set list" where
  "HIERARCHY =
     [{''cycle_length_3'', ''cycle_length_4'', ''cycle_length_5''},
      {''shell_account''},
      {''smurfing'', ''fan_in'', ''fan_out''},
      {''structuring''},
      {''high_velocity'', ''high_velocity_24h''},
      {''low_variance''}]"

definition KEEP_ALWAYS :: "string set" where
  "KEEP_ALWAYS = {''isolation_cluster'', ''payroll'', ''merchant''}"

fun highest_group :: "string set list \<Rightarrow> string set \<Rightarrow> string set" where
  "highest_group [] patterns = {}"
| "highest_group (grp # grps) patterns =
     (if patterns \<inter> grp \<noteq> {} then patterns \<inter> grp else highest_group grps patterns)"

definition apply_pattern_hierarchy :: "engine \<Rightarrow> engine" where
  "apply_pattern_hierarchy e =
     e\<lparr>account_patterns :=
         (\<lambda>acc. (account_patterns e acc \<inter> KEEP_ALWAYS)
                  \<union> highest_group HIERARCHY (account_patterns e acc))\<rparr>"

section \<open>Cycle edge selection\<close>

text \<open>
  What Python raises is a value: \<^verbatim>\<open>min\<close> and \<^verbatim>\<open>max\<close> of an empty list raise
  \<^verbatim>\<open>ValueError\<close>, and so does \<^verbatim>\<open>load_data\<close> on a table that lacks a column.
\<close>

datatype py_error = ValueError_empty_sequence | ValueError_missing_columns "string list"

record validated_cycle =
  cyc_nodes :: "account list"
  cyc_edges :: "txn list"
  total_amount :: real

text \<open>\<^verbatim>\<open>_external_degree_in_window\<close> (lines 84-99).\<close>

definition external_degree_in_window ::
  "graph \<Rightarrow> account \<Rightarrow> account set \<Rightarrow> instant \<Rightarrow> instant \<Rightarrow> nat" where
  "external_degree_in_window g node cycle_nodes_set ts_min ts_max =
     sum_list (map (\<lambda>pred. if pred \<in> cycle_nodes_set then 0
                            else length (filter (\<lambda>d. ts_min \<le> timestamp d \<and> timestamp d \<le> ts_max)
                                           (edges_between g pred node)))
                 (predecessors g node))
     + sum_list (map (\<lambda>succ. if succ \<in> cycle_nodes_set then 0
                              else length (filter (\<lambda>d. ts_min \<le> timestamp d \<and> timestamp d \<le> ts_max)
                                             (edges_between g node succ)))
                   (successors g node))"

text \<open>
  The four tests of \<^verbatim>\<open>_check_cycle_constraints\<close> (lines 432-472), each as the source
  writes its condition, on a non-empty selection of edges.
\<close>

definition HOURS_72 :: real where
  "HOURS_72 = 72 * 3600"

definition temporal_ok :: "txn list \<Rightarrow> bool" where
  "temporal_ok edges =
     (let timestamps = map timestamp edges;
          ts_min = Min (set timestamps);
          ts_max = Max (set timestamps)
      in \<not> (ts_max - ts_min > HOURS_72))"

definition mean_amount :: "txn list \<Rightarrow> real" where
  "mean_amount edges = sum_list (map amount edges) / real (length edges)"

definition uniform_ok :: "txn list \<Rightarrow> bool" where
  "uniform_ok edges =
     list_all (\<lambda>a. \<bar>a - mean_amount edges\<bar> / mean_amount edges \<le> 15 / 100) (map amount edges)"

definition flow_ratio :: "txn list \<Rightarrow> real" where
  "flow_ratio edges =
     (let amounts = map amount edges
      in if Max (set amounts) > 0 then Min (set amounts) / Max (set amounts) else 0)"

definition flow_ok :: "txn list \<Rightarrow> bool" where
  "flow_ok edges = (\<not> flow_ratio edges < 70 / 100)"

definition ext_ok :: "graph \<Rightarrow> int \<Rightarrow> account list \<Rightarrow> txn list \<Rightarrow> bool" where
  "ext_ok g ext_limit cycle_path edges =
     (let timestamps = map timestamp edges;
          ts_min = Min (set timestamps);
          ts_max = Max (set timestamps)
      in list_all (\<lambda>node. \<not> int (external_degree_in_window g node (set cycle_path) ts_min ts_max)
                              > ext_limit) cycle_path)"

definition check_cycle_constraints ::
  "graph \<Rightarrow> int \<Rightarrow> account list \<Rightarrow> txn list \<Rightarrow> py_error + validated_cycle option" where
  "check_cycle_constraints g ext_limit cycle_path edges =
     (if edges = [] then Inl ValueError_empty_sequence
      else if \<not> temporal_ok edges then Inr None
      else if mean_amount edges = 0 then Inr None
      else if \<not> uniform_ok edges then Inr None
      else if \<not> flow_ok edges then Inr None
      else if \<not> ext_ok g ext_limit cycle_path edges then Inr None
      else Inr (Some \<lparr>cyc_nodes = cycle_path, cyc_edges = edges,
                      total_amount = sum_list (map amount edges)\<rparr>))"

text \<open>
  \<^verbatim>\<open>_validate_cycle_edges\<close> (lines 404-430): one edge per hop, the parallel edges of a hop
  tried in the order of their timestamps; the first selection that passes is returned.
\<close>

fun recurse ::
    "(txn list \<Rightarrow> py_error + validated_cycle option) \<Rightarrow> txn list list \<Rightarrow> txn list \<Rightarrow>
     py_error + validated_cycle option"
  and try_edges ::
    "(txn list \<Rightarrow> py_error + validated_cycle option) \<Rightarrow> txn list \<Rightarrow> txn list list \<Rightarrow>
     txn list \<Rightarrow> py_error + validated_cycle option" where
  "recurse check [] chosen = check chosen"
| "recurse check (es # edge_lists) chosen = try_edges check es edge_lists chosen"
| "try_edges check [] edge_lists chosen = Inr None"
| "try_edges check (edge # es) edge_lists chosen =
     (case recurse check edge_lists (chosen @ [edge]) of
        Inl err \<Rightarrow> Inl err
      | Inr (Some result) \<Rightarrow> Inr (Some result)
      | Inr None \<Rightarrow> try_edges check es edge_lists chosen)"

definition validate_cycle_edges ::
  "graph \<Rightarrow> int \<Rightarrow> account list \<Rightarrow> py_error + validated_cycle option" where
  "validate_cycle_edges g ext_limit cycle_path =
     (let n = length cycle_path;
          edge_lists =
            map (\<lambda>i. sort_key timestamp
                       (edges_between g (cycle_path ! i) (cycle_path ! ((i + 1) mod n))))
              [0..<n]
      in if [] \<in> set edge_lists then Inr None
         else recurse (check_cycle_constraints g ext_limit cycle_path) edge_lists [])"

section \<open>Smurfing\<close>

text \<open>
  \<^verbatim>\<open>_extract_smurf_candidates\<close> (lines 880-945). The inbound and outbound transactions of
  a node are sorted by instant (Python's sort is stable); the window slides over the
  inbound ones, \<open>right\<close> never moving back.
\<close>

definition smurf_in_txns :: "graph \<Rightarrow> account \<Rightarrow> smurf_event list" where
  "smurf_in_txns g node =
     sort_key ev_ts
       (concat (map (\<lambda>pred. map (\<lambda>d. \<lparr>ev_ts = timestamp d, ev_amt = amount d, ev_peer = pred\<rparr>)
                                (edges_between g pred node))
                  (predecessors g node)))"

definition smurf_out_txns :: "graph \<Rightarrow> account \<Rightarrow> smurf_event list" where
  "smurf_out_txns g node =
     sort_key ev_ts
       (concat (map (\<lambda>succ. map (\<lambda>d. \<lparr>ev_ts = timestamp d, ev_amt = amount d, ev_peer = succ\<rparr>)
                                (edges_between g node succ))
                  (successors g node)))"

definition WINDOW_72H :: real where
  "WINDOW_72H = 72 * 3600"

definition UNIQUE_IN_THRESHOLD :: nat where
  "UNIQUE_IN_THRESHOLD = 5"

function advance_right :: "smurf_event list \<Rightarrow> instant \<Rightarrow> nat \<Rightarrow> nat" where
  "advance_right txns w_end right =
     (if right < length txns \<and> ev_ts (txns ! right) \<le> w_end
      then advance_right txns w_end (right + 1) else right)"
  by pat_completeness auto
termination
  by (relation "measure (\<lambda>(txns, w_end, right). length txns - right)") auto

declare advance_right.simps [simp del]

function slide_window ::
  "account \<Rightarrow> smurf_event list \<Rightarrow> smurf_event list \<Rightarrow> nat \<Rightarrow> nat \<Rightarrow> smurf_candidate list" where
  "slide_window node ins outs left right =
     (if left < length ins
      then
        let w_start = ev_ts (ins ! left);
            w_end = w_start + WINDOW_72H;
            right = advance_right ins w_end right;
            window_in_txns = take (right - left) (drop left ins);
            unique_in = card (set (map ev_peer window_in_txns))
        in if unique_in \<ge> UNIQUE_IN_THRESHOLD
           then [\<lparr>sc_hub = node, sc_in_txns = window_in_txns,
                   sc_out_txns =
                     filter (\<lambda>e. w_start \<le> ev_ts e \<and> ev_ts e \<le> w_end + 24 * 3600) outs,
                   sc_w_start = w_start, sc_w_end = w_end\<rparr>]
           else slide_window node ins outs (left + 1) right
      else [])"
  by pat_completeness auto
termination
  by (relation "measure (\<lambda>(node, ins, outs, left, right). length ins - left)") auto

declare slide_window.simps [simp del]

definition extract_smurf_candidates :: "graph \<Rightarrow> smurf_candidate list" where
  "extract_smurf_candidates g =
     concat (map (\<lambda>node.
                    let ins = smurf_in_txns g node; outs = smurf_out_txns g node
                    in if length ins < UNIQUE_IN_THRESHOLD then []
                       else slide_window node ins outs 0 0)
               (nodes g))"

text \<open>\<^verbatim>\<open>_coefficient_of_variation\<close> (lines 108-115) and \<^verbatim>\<open>statistics.median\<close>.\<close>

definition coefficient_of_variation :: "real list \<Rightarrow> real" where
  "coefficient_of_variation values =
     (if length values < 2 then 0
      else
        let mean_val = sum_list values / real (length values)
        in if mean_val = 0 then 0
           else
             let variance = sum_list (map (\<lambda>v. (v - mean_val)\<^sup>2) values) / real (length values)
             in sqrt variance / mean_val)"

definition median :: "real list \<Rightarrow> real" where
  "median xs =
     (let s = sort xs; n = length s
      in if odd n then s ! (n div 2) else (s ! (n div 2 - 1) + s ! (n div 2)) / 2)"

text \<open>
  \<^verbatim>\<open>_score_smurf_candidates\<close> (lines 947-1119), one candidate. The five factors, in the
  order of the source; \<open>retention\<close> keeps the source's guard against a zero inbound sum.
\<close>

definition MAX_SMURF_RING_SIZE :: nat where
  "MAX_SMURF_RING_SIZE = 15"

definition incoming_sum :: "smurf_candidate \<Rightarrow> real" where
  "incoming_sum cand = sum_list (map ev_amt (sc_in_txns cand))"

definition outgoing_sum :: "smurf_candidate \<Rightarrow> real" where
  "outgoing_sum cand = (if sc_out_txns cand \<noteq> [] then sum_list (map ev_amt (sc_out_txns cand)) else 0)"

definition flow_score :: "smurf_candidate \<Rightarrow> real" where
  "flow_score cand =
     (let retention = (if incoming_sum cand > 0 then outgoing_sum cand / incoming_sum cand else 0)
      in if retention \<ge> 6 / 10 then 1 else if retention \<ge> 4 / 10 then 5 / 10 else 0)"

definition conc_score :: "smurf_candidate \<Rightarrow> real" where
  "conc_score cand =
     (let unique_out = (if sc_out_txns cand \<noteq> [] then card (set (map ev_peer (sc_out_txns cand))) else 0)
      in if unique_out \<le> 3 then 1 else if unique_out \<le> 5 then 5 / 10 else 0)"

definition hold_times :: "smurf_candidate \<Rightarrow> real list" where
  "hold_times cand =
     concat (map (\<lambda>ie. case find (\<lambda>oe. ev_ts oe \<ge> ev_ts ie) (sc_out_txns cand) of
                          None \<Rightarrow> []
                        | Some best_out \<Rightarrow> [ev_ts best_out - ev_ts ie])
               (sc_in_txns cand))"

definition hold_score :: "smurf_candidate \<Rightarrow> real" where
  "hold_score cand =
     (if hold_times cand \<noteq> []
      then let median_hold = median (hold_times cand)
           in if median_hold < 24 * 3600 then 1
              else if median_hold < 48 * 3600 then 5 / 10 else 0
      else 3 / 10)"

definition cv_score :: "smurf_candidate \<Rightarrow> real" where
  "cv_score cand =
     (let cv = coefficient_of_variation (map ev_amt (sc_in_txns cand))
      in if cv \<le> 35 / 100 then 1 else if cv \<le> 5 / 10 then 5 / 10 else 0)"

definition inbound_accounts :: "account set \<Rightarrow> smurf_candidate \<Rightarrow> account set" where
  "inbound_accounts immune cand = set (map ev_peer (sc_in_txns cand)) - immune"

definition outbound_accounts :: "account set \<Rightarrow> smurf_candidate \<Rightarrow> account set" where
  "outbound_accounts immune cand =
     (if sc_out_txns cand \<noteq> [] then set (map ev_peer (sc_out_txns cand)) else {}) - immune"

definition hub_set :: "account set \<Rightarrow> smurf_candidate \<Rightarrow> account set" where
  "hub_set immune cand = (if sc_hub cand \<in> immune then {} else {sc_hub cand})"

definition all_members :: "account set \<Rightarrow> smurf_candidate \<Rightarrow> account list" where
  "all_members immune cand =
     (let all_members_set =
            hub_set immune cand \<union> inbound_accounts immune cand \<union> outbound_accounts immune cand;
          all_members_set =
            (if card all_members_set > MAX_SMURF_RING_SIZE
             then
               let keep = hub_set immune cand;
                   remaining_budget = MAX_SMURF_RING_SIZE - card keep;
                   keep = keep \<union> set (take remaining_budget
                                          (sorted_list_of_set (inbound_accounts immune cand)));
                   remaining_budget = MAX_SMURF_RING_SIZE - card keep;
                   keep = keep \<union> set (take remaining_budget
                                          (sorted_list_of_set (outbound_accounts immune cand)))
               in keep
             else all_members_set)
      in sorted_list_of_set all_members_set)"

definition size_score :: "account set \<Rightarrow> smurf_candidate \<Rightarrow> real" where
  "size_score immune cand =
     (let ring_size = length (all_members immune cand)
      in if ring_size \<ge> 5 then 1 else if ring_size \<ge> 4 then 8 / 10
         else if ring_size \<ge> 3 then 4 / 10 else 0)"

definition combined_score :: "account set \<Rightarrow> smurf_candidate \<Rightarrow> real" where
  "combined_score immune cand =
     flow_score cand + conc_score cand + hold_score cand + cv_score cand + size_score immune cand"

definition smurf_confidence :: "graph \<Rightarrow> account set \<Rightarrow> smurf_candidate \<Rightarrow> real" where
  "smurf_confidence g immune cand =
     (let ring_size = length (all_members immune cand);
          confidence = 7 / 10 + (combined_score immune cand - 4) / 5 * (2 / 10);
          member_set = set (all_members immune cand);
          succs = concat (map (successors g) (all_members immune cand));
          int_count = length (filter (\<lambda>s. s \<in> member_set) succs);
          ext_count = length (filter (\<lambda>s. s \<notin> member_set) succs);
          confidence = (if int_count > 0 \<and> ext_count \<le> int_count then confidence + 5 / 100
                        else confidence);
          confidence = (if ring_size > 15 then confidence - 1 / 10 else confidence);
          confidence = confidence - real ring_size * (5 / 1000)
      in max (1 / 10) (min 1 confidence))"

definition smurf_ring :: "graph \<Rightarrow> account set \<Rightarrow> smurf_candidate \<Rightarrow> candidate" where
  "smurf_ring g immune cand =
     (let ring_size = length (all_members immune cand);
          confidence_pct = combined_score immune cand / 5;
          ring_risk = min 100 (40 + confidence_pct * 40 + real ring_size * 2)
      in \<lparr>members = all_members immune cand,
          cand_pattern_type = ''smurfing'',
          cand_risk_score = round1 ring_risk,
          confidence_score = smurf_confidence g immune cand,
          core_account = Some (sc_hub cand)\<rparr>)"

definition smurf_labels ::
  "account set \<Rightarrow> smurf_candidate \<Rightarrow> (account \<Rightarrow> string set) \<Rightarrow> (account \<Rightarrow> string set)" where
  "smurf_labels immune cand pats =
     foldl (\<lambda>pats acc.
              if acc = sc_hub cand then pats(acc := pats acc \<union> {''smurfing'', ''fan_in''})
              else if acc \<in> inbound_accounts immune cand then pats(acc := insert ''fan_in'' (pats acc))
              else pats(acc := insert ''fan_out'' (pats acc)))
       pats (all_members immune cand)"

text \<open>
  The body of the loop: the state is the set \<^verbatim>\<open>seen_ring_keys\<close> and the engine. Each
  \<^verbatim>\<open>continue\<close> of the source leaves the state as it is.
\<close>

definition score_smurf_candidate ::
  "graph \<Rightarrow> account list set \<times> engine \<Rightarrow> smurf_candidate \<Rightarrow> account list set \<times> engine" where
  "score_smurf_candidate g st cand =
     (let seen_ring_keys = fst st; e = snd st; immune = immune_accounts e
      in if sc_in_txns cand = [] then st
         else if incoming_sum cand \<le> 0 then st
         else if combined_score immune cand < 4 then st
         else if length (all_members immune cand) < 4 then st
         else if all_members immune cand \<in> seen_ring_keys then st
         else (insert (all_members immune cand) seen_ring_keys,
               e\<lparr>candidate_rings := candidate_rings e @ [smurf_ring g immune cand],
                 account_patterns := smurf_labels immune cand (account_patterns e)\<rparr>))"

definition score_smurf_candidates :: "graph \<Rightarrow> engine \<Rightarrow> engine" where
  "score_smurf_candidates g e = snd (foldl (score_smurf_candidate g) ({}, e) (smurf_candidates e))"

section \<open>Ingest\<close>

text \<open>
  \<^verbatim>\<open>load_data\<close> (lines 181-215). A table has column names and rows; a row gives a cell for
  a column name. What pandas does to a cell is a parameter: \<open>to_numeric\<close> and
  \<open>to_datetime\<close> are \<^verbatim>\<open>pd.to_numeric\<close> and \<^verbatim>\<open>pd.to_datetime\<close> with
  \<^verbatim>\<open>errors="coerce"\<close>, \<open>None\<close> standing for \<^verbatim>\<open>NaN\<close> and \<^verbatim>\<open>NaT\<close>, and \<open>astype_str\<close> is
  \<^verbatim>\<open>astype(str)\<close>. \<^verbatim>\<open>sort_values\<close> is modelled as a stable sort.
\<close>

record 'c dataframe =
  columns :: "string list"
  rows :: "(string \<Rightarrow> 'c) list"

record 'c pandas =
  to_numeric :: "'c \<Rightarrow> real option"
  to_datetime :: "'c \<Rightarrow> instant option"
  astype_str :: "'c \<Rightarrow> string"

definition REQUIRED_COLUMNS :: "string list" where
  "REQUIRED_COLUMNS = [''transaction_id'', ''sender_id'', ''receiver_id'', ''amount'', ''timestamp'']"

definition coerce_row :: "'c pandas \<Rightarrow> (string \<Rightarrow> 'c) \<Rightarrow> txn list" where
  "coerce_row pd row =
     (case (to_numeric pd (row ''amount''), to_datetime pd (row ''timestamp'')) of
        (Some a, Some t) \<Rightarrow>
          [\<lparr>transaction_id = astype_str pd (row ''transaction_id''),
            sender_id = astype_str pd (row ''sender_id''),
            receiver_id = astype_str pd (row ''receiver_id''),
            amount = a, timestamp = t\<rparr>]
      | _ \<Rightarrow> [])"

text \<open>
  \<^verbatim>\<open>_compute_dataset_stats\<close> (lines 220-254). \<^verbatim>\<open>np.std\<close> is the population standard
  deviation; \<^verbatim>\<open>int\<close> of a float cuts its fraction off. On an empty table the time span
  of the source is not a number, which fails \<^verbatim>\<open>dataset_span > 0\<close> as \<open>0\<close> does.
\<close>

definition np_std :: "real list \<Rightarrow> real" where
  "np_std xs =
     (let m = sum_list xs / real (length xs)
      in sqrt (sum_list (map (\<lambda>x. (x - m)\<^sup>2) xs) / real (length xs)))"

definition int_trunc :: "real \<Rightarrow> int" where
  "int_trunc x = (if x \<ge> 0 then \<lfloor>x\<rfloor> else \<lceil>x\<rceil>)"

definition compute_dataset_stats :: "engine \<Rightarrow> engine" where
  "compute_dataset_stats e =
     (case (G e, df e) of
        (Some g, Some d) \<Rightarrow>
          let degrees = map (\<lambda>n. real (in_degree g n + out_degree g n)) (nodes g);
              e = (if degrees \<noteq> []
                   then e\<lparr>median_degree := median degrees, degree_std := np_std degrees\<rparr>
                   else e\<lparr>median_degree := 2, degree_std := 1\<rparr>);
              amounts = map amount d;
              e = (if amounts \<noteq> []
                   then e\<lparr>median_tx_amount := median amounts, amount_std := np_std amounts\<rparr>
                   else e\<lparr>median_tx_amount := 1000, amount_std := 500\<rparr>);
              e = e\<lparr>dataset_time_span :=
                       (if d = [] then 0
                        else Max (set (map timestamp d)) - Min (set (map timestamp d)))\<rparr>
          in e\<lparr>adaptive_ext_degree_limit :=
                 max 2 (int_trunc (median_degree e + 15 / 10 * degree_std e))\<rparr>
      | _ \<Rightarrow> e)"

text \<open>
  The result is the exception raised, if any, and the engine afterwards: a raise leaves
  the engine as it was.
\<close>

definition load_data :: "'c pandas \<Rightarrow> 'c dataframe \<Rightarrow> engine \<Rightarrow> py_error option \<times> engine" where
  "load_data pd frame e =
     (let missing = filter (\<lambda>c. c \<notin> set (columns frame)) REQUIRED_COLUMNS
      in if missing \<noteq> [] then (Some (ValueError_missing_columns missing), e)
         else
           let d = sort_key timestamp (concat (map (coerce_row pd) (rows frame)))
           in (None, compute_dataset_stats (e\<lparr>df := Some d, G := Some d\<rparr>)))"

section \<open>Shell chains and shell hardening\<close>

text \<open>
  \<^verbatim>\<open>_find_shell_chains\<close> (lines 667-700): a depth-first walk with an explicit stack, whose
  top is the head of the list. One turn of the inner \<^verbatim>\<open>for\<close> loop looks at one successor
  of the node popped: it is skipped, pushed, or closes a chain.
\<close>

definition visit_neighbor ::
  "account set \<Rightarrow> nat \<Rightarrow> account list \<Rightarrow>
   (account \<times> account list) list \<times> account list list \<Rightarrow> account \<Rightarrow>
   (account \<times> account list) list \<times> account list list" where
  "visit_neighbor shell_candidates min_intermediaries path acc neighbor =
     (if neighbor \<in> set path then acc
      else
        let new_path = path @ [neighbor]
        in if neighbor \<in> shell_candidates then ((neighbor, new_path) # fst acc, snd acc)
           else
             let intermediaries = filter (\<lambda>n. n \<in> shell_candidates) (butlast (tl new_path))
             in if length intermediaries \<ge> min_intermediaries
                then (fst acc, snd acc @ [new_path]) else acc)"

definition visit_node ::
  "graph \<Rightarrow> account set \<Rightarrow> nat \<Rightarrow> account \<Rightarrow> account list \<Rightarrow>
   (account \<times> account list) list \<times> account list list" where
  "visit_node g shell_candidates min_intermediaries current path =
     foldl (visit_neighbor shell_candidates min_intermediaries path) ([], []) (successors g current)"

function chain_loop ::
  "graph \<Rightarrow> account set \<Rightarrow> nat \<Rightarrow> (account \<times> account list) list \<Rightarrow> nat \<Rightarrow>
   account list list \<Rightarrow> account list list" where
  "chain_loop g shell_candidates min_intermediaries [] paths_found results = results"
| "chain_loop g shell_candidates min_intermediaries ((current, path) # stack) paths_found results =
     (if paths_found \<ge> 50 then results
      else if length path \<ge> 4
      then chain_loop g shell_candidates min_intermediaries stack paths_found results
      else
        let pushed = fst (visit_node g shell_candidates min_intermediaries current path);
            found = snd (visit_node g shell_candidates min_intermediaries current path)
        in chain_loop g shell_candidates min_intermediaries (pushed @ stack)
             (paths_found + length found) (results @ found))"
  by pat_completeness auto

text \<open>
  The walk ends: a node popped with a path of four nodes pushes nothing, and a shorter
  path pushes only longer ones.
\<close>

lemma visit_neighbor_pushed:
  "\<forall>p \<in> set (fst acc). length (snd p) = Suc (length path) \<Longrightarrow>
   \<forall>p \<in> set (fst (visit_neighbor sc mi path acc n)). length (snd p) = Suc (length path)"
  by (simp add: visit_neighbor_def Let_def)

lemma visit_node_pushed:
  "\<forall>p \<in> set (fst (visit_node g sc mi current path)). length (snd p) = Suc (length path)"
proof -
  have "\<forall>p \<in> set (fst acc). length (snd p) = Suc (length path) \<Longrightarrow>
        \<forall>p \<in> set (fst (foldl (visit_neighbor sc mi path) acc ns)). length (snd p) = Suc (length path)"
    for acc ns
  proof (induction ns arbitrary: acc)
    case Nil
    then show ?case by simp
  next
    case (Cons n ns)
    have "\<forall>p \<in> set (fst (visit_neighbor sc mi path acc n)). length (snd p) = Suc (length path)"
      using Cons.prems by (rule visit_neighbor_pushed)
    from Cons.IH [OF this] show ?case by simp
  qed
  from this [of "([], [])"] show ?thesis by (simp add: visit_node_def)
qed

lemma mult_step:
  assumes "\<forall>k \<in> set ks. k < (j::nat)"
  shows "(mset ks + M, add_mset j M) \<in> mult less_than"
proof -
  have "(M + mset ks, M + {#j#}) \<in> mult less_than"
    by (rule one_step_implies_mult) (use assms in auto)
  then show ?thesis by (simp add: add.commute)
qed

termination chain_loop
  apply (relation "inv_image (mult less_than)
           (\<lambda>(g, sc, mi, stack, pf, res). mset (map (\<lambda>p. 4 - length (snd p)) stack))")
    apply (simp add: wf_mult)
   apply (simp only: in_inv_image prod.case list.map mset.simps)
   apply (rule mult_step [of "[]", simplified])
  apply (simp only: in_inv_image prod.case list.map mset.simps map_append mset_append)
  apply (rule mult_step)
  using visit_node_pushed apply auto
  done

declare chain_loop.simps [simp del]

definition find_shell_chains ::
  "graph \<Rightarrow> account \<Rightarrow> account set \<Rightarrow> account list list \<Rightarrow> nat \<Rightarrow> account list list" where
  "find_shell_chains g start shell_candidates results min_intermediaries =
     chain_loop g shell_candidates min_intermediaries [(start, [start])] 0 results"

text \<open>
  The second half of \<^verbatim>\<open>detect_shells\<close> (lines 574-665), from the chain walk on. The set
  of shell candidates that the first half computes is a parameter. The five hardening
  rules are the conditions of the source, on the set of the non-immune members of a
  chain; sums over a set do not depend on the order in which Python visits it.
\<close>

definition walk_shell_chains :: "graph \<Rightarrow> account set \<Rightarrow> nat \<Rightarrow> account list list" where
  "walk_shell_chains g shell_candidates min_intermediaries =
     foldl (\<lambda>visited_chains node.
              if node \<in> shell_candidates then visited_chains
              else find_shell_chains g node shell_candidates visited_chains min_intermediaries)
       [] (nodes g)"

definition total_degree :: "graph \<Rightarrow> account \<Rightarrow> nat" where
  "total_degree g m = in_degree g m + out_degree g m"

definition internal_edges :: "graph \<Rightarrow> account set \<Rightarrow> nat" where
  "internal_edges g member_set =
     (\<Sum>m\<in>member_set. length (filter (\<lambda>succ. succ \<in> member_set) (successors g m)))"

definition external_edges :: "graph \<Rightarrow> account set \<Rightarrow> nat" where
  "external_edges g member_set =
     (\<Sum>m\<in>member_set. length (filter (\<lambda>succ. succ \<notin> member_set) (successors g m)))"

definition total_in_amt :: "graph \<Rightarrow> account set \<Rightarrow> real" where
  "total_in_amt g member_set =
     (\<Sum>m\<in>member_set. sum_list (map amount (filter (\<lambda>d. receiver_id d = m) g)))"

definition total_out_amt :: "graph \<Rightarrow> account set \<Rightarrow> real" where
  "total_out_amt g member_set =
     (\<Sum>m\<in>member_set. sum_list (map amount (filter (\<lambda>d. sender_id d = m) g)))"

definition rule1_rejects :: "account set \<Rightarrow> bool" where
  "rule1_rejects member_set = (card member_set > 12)"

definition rule2_rejects :: "graph \<Rightarrow> account set \<Rightarrow> bool" where
  "rule2_rejects g member_set =
     (real (\<Sum>m\<in>member_set. total_degree g m) / real (card member_set) > 4)"

definition rule3_rejects :: "graph \<Rightarrow> account set \<Rightarrow> bool" where
  "rule3_rejects g member_set = (Max (total_degree g ` member_set) > 8)"

definition rule4_rejects :: "graph \<Rightarrow> account set \<Rightarrow> bool" where
  "rule4_rejects g member_set =
     (internal_edges g member_set > 0 \<and>
      real (external_edges g member_set) > real (internal_edges g member_set) * (5 / 10))"

definition rule5_rejects :: "graph \<Rightarrow> account set \<Rightarrow> bool" where
  "rule5_rejects g member_set =
     (let total_amt = total_in_amt g member_set + total_out_amt g member_set
      in total_amt > 0 \<and>
         \<bar>total_in_amt g member_set - total_out_amt g member_set\<bar> / total_amt > 3 / 10)"

definition hardening_rejects :: "graph \<Rightarrow> account set \<Rightarrow> bool" where
  "hardening_rejects g member_set =
     (rule1_rejects member_set \<or> rule2_rejects g member_set \<or> rule3_rejects g member_set
      \<or> rule4_rejects g member_set \<or> rule5_rejects g member_set)"

definition shell_confidence :: "graph \<Rightarrow> account set \<Rightarrow> real" where
  "shell_confidence g member_set =
     (let confidence = 5 / 10;
          confidence =
            (if internal_edges g member_set > 0 \<and>
                real (external_edges g member_set) \<le> real (internal_edges g member_set) * (2 / 10)
             then confidence + 1 / 10 else confidence);
          max_possible = card member_set * (card member_set - 1);
          confidence =
            (if max_possible > 0 \<and> real (internal_edges g member_set) / real max_possible \<ge> 3 / 10
             then confidence + 1 / 10 else confidence);
          confidence = confidence - real (card member_set) * (2 / 100)
      in max (1 / 10) (min 1 confidence))"

definition MAX_SHELL_RINGS :: nat where
  "MAX_SHELL_RINGS = 50"

record shell_state =
  seen :: "account set set"
  shell_ring_count :: nat
  stopped :: bool
  shell_engine :: engine

text \<open>
  One turn of the loop over the chains; \<open>stopped\<close> records the \<^verbatim>\<open>break\<close> at the cap of
  fifty rings.
\<close>

definition harden_chain :: "graph \<Rightarrow> shell_state \<Rightarrow> account list \<Rightarrow> shell_state" where
  "harden_chain g st chain =
     (if stopped st then st
      else if shell_ring_count st \<ge> MAX_SHELL_RINGS then st\<lparr>stopped := True\<rparr>
      else
        let e = shell_engine st;
            non_immune_chain = filter (\<lambda>a. a \<notin> immune_accounts e) chain
        in if length non_immune_chain < 3 then st
           else if set non_immune_chain \<in> seen st then st
           else if hardening_rejects g (set non_immune_chain) then st
           else
             st\<lparr>seen := insert (set non_immune_chain) (seen st),
                shell_ring_count := shell_ring_count st + 1,
                shell_engine :=
                  e\<lparr>candidate_rings := candidate_rings e @
                       [\<lparr>members = sort non_immune_chain,
                         cand_pattern_type = ''shell_network'',
                         cand_risk_score = round1 (min 100 (55 + real (length chain) * 5)),
                         confidence_score = shell_confidence g (set non_immune_chain),
                         core_account = None\<rparr>],
                     account_patterns :=
                       (\<lambda>acc. if acc \<in> set chain
                              then insert ''shell_account'' (account_patterns e acc)
                              else account_patterns e acc)\<rparr>\<rparr>)"

definition collect_shell_rings :: "graph \<Rightarrow> account set \<Rightarrow> nat \<Rightarrow> engine \<Rightarrow> engine" where
  "collect_shell_rings g shell_candidates min_intermediaries e =
     (if shell_candidates = {} then e
      else shell_engine
             (foldl (harden_chain g)
                \<lparr>seen = {}, shell_ring_count = 0, stopped = False, shell_engine = e\<rparr>
                (walk_shell_chains g shell_candidates min_intermediaries)))"

section \<open>Smurf consolidation\<close>

text \<open>
  \<^verbatim>\<open>_smurf_consolidation\<close> (lines 1196-1264). The union-find of the source is an array
  \<^verbatim>\<open>parent\<close> with path halving. Its \<^verbatim>\<open>find\<close> is a \<^verbatim>\<open>while\<close> loop: the model is
  \<^const>\<open>while_option\<close>, whose value \<open>None\<close> is a loop that does not end, and every
  function that calls it returns an option.
\<close>

definition jaccard_similarity :: "account set \<Rightarrow> account set \<Rightarrow> real" where
  "jaccard_similarity set_a set_b =
     (if set_a = {} \<and> set_b = {} then 1
      else
        let intersection = card (set_a \<inter> set_b); union = card (set_a \<union> set_b)
        in if union > 0 then real intersection / real union else 0)"

definition uf_find :: "nat list \<Rightarrow> nat \<Rightarrow> (nat list \<times> nat) option" where
  "uf_find parent x =
     while_option (\<lambda>(p, x). p ! x \<noteq> x)
       (\<lambda>(p, x). let p = p[x := p ! (p ! x)] in (p, p ! x)) (parent, x)"

definition uf_union :: "nat list \<Rightarrow> nat \<Rightarrow> nat \<Rightarrow> nat list option" where
  "uf_union parent a b =
     (case uf_find parent a of
        None \<Rightarrow> None
      | Some (p1, ra) \<Rightarrow>
          (case uf_find p1 b of
             None \<Rightarrow> None
           | Some (p2, rb) \<Rightarrow> Some (if ra \<noteq> rb then p2[rb := ra] else p2)))"

fun union_pairs :: "account set list \<Rightarrow> nat list \<Rightarrow> (nat \<times> nat) list \<Rightarrow> nat list option" where
  "union_pairs sets parent [] = Some parent"
| "union_pairs sets parent ((i, j) # pairs) =
     (if jaccard_similarity (sets ! i) (sets ! j) > 6 / 10
      then (case uf_union parent i j of
              None \<Rightarrow> None
            | Some p \<Rightarrow> union_pairs sets p pairs)
      else union_pairs sets parent pairs)"

text \<open>\<^verbatim>\<open>uf_groups[find(i)].append(i)\<close> on a \<^verbatim>\<open>defaultdict(list)\<close>, for \<open>i\<close> in order.\<close>

fun group_indices ::
  "nat list \<Rightarrow> (nat \<times> nat list) list \<Rightarrow> nat list \<Rightarrow> (nat \<times> nat list) list option" where
  "group_indices parent uf_groups [] = Some uf_groups"
| "group_indices parent uf_groups (i # rest) =
     (case uf_find parent i of
        None \<Rightarrow> None
      | Some (p, r) \<Rightarrow>
          group_indices p
            (AList.update r ((case map_of uf_groups r of None \<Rightarrow> [] | Some l \<Rightarrow> l) @ [i]) uf_groups)
            rest)"

definition merge_group :: "account \<Rightarrow> candidate list \<Rightarrow> nat list \<Rightarrow> candidate" where
  "merge_group core grp indices =
     \<lparr>members = sorted_list_of_set (\<Union>idx\<in>set indices. set (members (grp ! idx))),
      cand_pattern_type = ''smurfing'',
      cand_risk_score = round1 (foldl (\<lambda>best idx. max best (cand_risk_score (grp ! idx))) 0 indices),
      confidence_score = foldl (\<lambda>best idx. max best (confidence_score (grp ! idx))) 0 indices,
      core_account = Some core\<rparr>"

definition consolidate_group :: "account \<Rightarrow> candidate list \<Rightarrow> candidate list option" where
  "consolidate_group core grp =
     (if length grp = 1 then Some grp
      else
        let n = length grp;
            parent = [0..<n];
            sets = map (\<lambda>c. set (members c)) grp;
            pairs = concat (map (\<lambda>i. map (\<lambda>j. (i, j)) [i + 1..<n]) [0..<n])
        in case union_pairs sets parent pairs of
             None \<Rightarrow> None
           | Some p \<Rightarrow>
               (case group_indices p [] [0..<n] of
                  None \<Rightarrow> None
                | Some uf_groups \<Rightarrow> Some (map (\<lambda>(r, indices). merge_group core grp indices) uf_groups)))"

text \<open>\<^verbatim>\<open>core_groups[s.get("core_account", "unknown")].append(s)\<close>, in the order of the candidates.\<close>

definition core_key :: "candidate \<Rightarrow> account" where
  "core_key s = (case core_account s of None \<Rightarrow> ''unknown'' | Some core \<Rightarrow> core)"

definition core_groups :: "candidate list \<Rightarrow> (account \<times> candidate list) list" where
  "core_groups smurf =
     foldl (\<lambda>groups s.
              AList.update (core_key s)
                ((case map_of groups (core_key s) of None \<Rightarrow> [] | Some l \<Rightarrow> l) @ [s]) groups)
       [] smurf"

fun consolidate_groups :: "(account \<times> candidate list) list \<Rightarrow> candidate list option" where
  "consolidate_groups [] = Some []"
| "consolidate_groups ((core, grp) # rest) =
     (case consolidate_group core grp of
        None \<Rightarrow> None
      | Some cs \<Rightarrow>
          (case consolidate_groups rest of
             None \<Rightarrow> None
           | Some others \<Rightarrow> Some (cs @ others)))"

definition smurf_consolidation :: "candidate list \<Rightarrow> candidate list option" where
  "smurf_consolidation candidates =
     (let non_smurf = filter (\<lambda>c. cand_pattern_type c \<noteq> ''smurfing'') candidates;
          smurf = filter (\<lambda>c. cand_pattern_type c = ''smurfing'') candidates
      in if smurf = [] then Some candidates
         else (case consolidate_groups (core_groups smurf) of
                 None \<Rightarrow> None
               | Some consolidated_smurfs \<Rightarrow> Some (non_smurf @ consolidated_smurfs)))"

text \<open>\<^verbatim>\<open>_consolidate_rings\<close> (lines 1174-1190).\<close>

definition consolidate_rings :: "(account set \<Rightarrow> account list) \<Rightarrow> engine \<Rightarrow> engine option" where
  "consolidate_rings iter e =
     (if candidate_rings e = [] then Some e
      else (case smurf_consolidation (candidate_rings e) of
              None \<Rightarrow> None
            | Some cands \<Rightarrow>
                Some (e\<lparr>candidate_rings := cands, fraud_rings := arbitrate_rings iter cands\<rparr>)))"

text \<open>
  \<^verbatim>\<open>run_all\<close> from the immune-member cleanup on (lines 1663-1686): cleanup, consolidation
  and arbitration, pattern hierarchy, scoring.
\<close>

definition run_after_detection ::
  "(account \<Rightarrow> real) \<Rightarrow> (account set \<Rightarrow> account list) \<Rightarrow> engine \<Rightarrow> engine option" where
  "run_after_detection anomaly_bonus iter e =
     (case consolidate_rings iter (immune_cleanup e) of
        None \<Rightarrow> None
      | Some e2 \<Rightarrow> Some (calculate_suspicion_scores anomaly_bonus (apply_pattern_hierarchy e2)))"

section \<open>Concrete inputs\<close>

text \<open>
  Two candidates that share the account \<open>C\<close>: the ring of a triangle \<open>A, B, C\<close> as
  \<^verbatim>\<open>detect_cycles\<close> scores it (confidence 1.0, risk 76.0), and a shell chain \<open>C, D, E\<close>
  as \<^verbatim>\<open>detect_shells\<close> scores it (confidence 0.44, risk 70.0).
\<close>

definition overlap_candidates :: "candidate list" where
  "overlap_candidates =
     [\<lparr>members = [''A'', ''B'', ''C''], cand_pattern_type = ''cycle'', cand_risk_score = 76,
       confidence_score = 1, core_account = None\<rparr>,
      \<lparr>members = [''C'', ''D'', ''E''], cand_pattern_type = ''shell_network'',
       cand_risk_score = 70, confidence_score = 44 / 100, core_account = None\<rparr>]"

text \<open>
  A graph with a 4-cycle through \<open>X\<close>, a 3-cycle through \<open>Y1\<close> and \<open>Y2\<close> and a 5-cycle
  through \<open>Z\<close>; \<open>X\<close> pays \<open>Y1\<close> and \<open>Y2\<close>, and \<open>Z\<close> pays \<open>X\<close> and \<open>Y1\<close>. Every account
  carries the label of its cycle. The node order of the graph is
  \<open>X, P, Q, R, Y1, Y2, Y3, Z, A, B, C, D\<close>.
\<close>

definition mk_txn :: "string \<Rightarrow> account \<Rightarrow> account \<Rightarrow> real \<Rightarrow> instant \<Rightarrow> txn" where
  "mk_txn i s r a t =
     \<lparr>transaction_id = i, sender_id = s, receiver_id = r, amount = a, timestamp = t\<rparr>"

definition iso_graph :: graph where
  "iso_graph =
     [mk_txn ''T01'' ''X'' ''P'' 1000 0,
      mk_txn ''T02'' ''P'' ''Q'' 1000 7200,
      mk_txn ''T03'' ''Q'' ''R'' 1000 14400,
      mk_txn ''T04'' ''R'' ''X'' 1000 21600,
      mk_txn ''T05'' ''Y1'' ''Y2'' 2000 1000000,
      mk_txn ''T06'' ''Y2'' ''Y3'' 2000 1007200,
      mk_txn ''T07'' ''Y3'' ''Y1'' 2000 1014400,
      mk_txn ''T08'' ''X'' ''Y1'' 300 2000000,
      mk_txn ''T09'' ''X'' ''Y2'' 700 2100000,
      mk_txn ''T10'' ''Z'' ''A'' 5000 3000000,
      mk_txn ''T11'' ''A'' ''B'' 5000 3007200,
      mk_txn ''T12'' ''B'' ''C'' 5000 3014400,
      mk_txn ''T13'' ''C'' ''D'' 5000 3021600,
      mk_txn ''T14'' ''D'' ''Z'' 5000 3028800,
      mk_txn ''T15'' ''Z'' ''X'' 120 4000000,
      mk_txn ''T16'' ''Z'' ''Y1'' 450 4100000]"

definition iso_patterns :: "account \<Rightarrow> string set" where
  "iso_patterns acc =
     (if acc \<in> {''X'', ''P'', ''Q'', ''R''} then {''cycle_length_4''}
      else if acc \<in> {''Y1'', ''Y2'', ''Y3''} then {''cycle_length_3''}
      else if acc \<in> {''Z'', ''A'', ''B'', ''C'', ''D''} then {''cycle_length_5''}
      else {})"

definition iso_anomaly :: "account \<Rightarrow> real" where
  "iso_anomaly acc =
     (if acc \<in> {''Y1'', ''Y2'', ''Y3''} then 5 else if acc = ''P'' then 15 else 0)"

definition iso_engine :: engine where
  "iso_engine = fresh_engine\<lparr>df := Some iso_graph, G := Some iso_graph, account_patterns := iso_patterns\<rparr>"

text \<open>
  An engine after scoring whose first two rings both list the account \<open>C\<close>, and
  whose account \<open>Q\<close> is in no ring.
\<close>

definition two_ring_engine :: engine where
  "two_ring_engine =
     fresh_engine
       \<lparr>fraud_rings :=
          [\<lparr>ring_id = ''RING_001'', member_accounts = [''A'', ''B'', ''C''],
            pattern_type = ''cycle'', risk_score = 76\<rparr>,
           \<lparr>ring_id = ''RING_002'', member_accounts = [''C'', ''D'', ''E''],
            pattern_type = ''shell_network'', risk_score = 70\<rparr>],
        suspicion_scores := [(''C'', 30), (''D'', 0), (''A'', 35), (''Q'', 26)]\<rparr>"

text \<open>
  Three candidates: a cycle \<open>A, B, C\<close>, a shell chain \<open>D, E, F\<close>, and a weaker shell
  chain \<open>A, B, D\<close>, all of whose members are claimed when it is examined.
\<close>

definition merge_candidates :: "candidate list" where
  "merge_candidates =
     [\<lparr>members = [''A'', ''B'', ''C''], cand_pattern_type = ''cycle'', cand_risk_score = 76,
       confidence_score = 1, core_account = None\<rparr>,
      \<lparr>members = [''D'', ''E'', ''F''], cand_pattern_type = ''shell_network'',
       cand_risk_score = 70, confidence_score = 44 / 100, core_account = None\<rparr>,
      \<lparr>members = [''A'', ''B'', ''D''], cand_pattern_type = ''shell_network'',
       cand_risk_score = 70, confidence_score = 34 / 100, core_account = None\<rparr>]"

text \<open>
  A merchant in a triangle: ten senders pay \<open>M\<close> 50 each, days apart, and later \<open>M\<close>
  pays \<open>A\<close>, \<open>A\<close> pays \<open>B\<close> and \<open>B\<close> pays \<open>M\<close> 1000 each within four hours. The engine
  \<open>merchant_engine\<close> is the state that the detectors leave on this graph: \<open>M\<close> is immune
  and labelled \<^verbatim>\<open>merchant\<close>, the three accounts of the cycle carry \<^verbatim>\<open>cycle_length_3\<close>, \<open>A\<close>
  and \<open>B\<close> carry \<^verbatim>\<open>low_variance\<close>, and there is no candidate ring, since the cycle has
  only two members that are not immune.
\<close>

definition merchant_graph :: graph where
  "merchant_graph =
     [mk_txn ''T01'' ''S01'' ''M'' 50 0,
      mk_txn ''T02'' ''S02'' ''M'' 50 300000,
      mk_txn ''T03'' ''S03'' ''M'' 50 600000,
      mk_txn ''T04'' ''S04'' ''M'' 50 900000,
      mk_txn ''T05'' ''S05'' ''M'' 50 1200000,
      mk_txn ''T06'' ''S06'' ''M'' 50 1500000,
      mk_txn ''T07'' ''S07'' ''M'' 50 1800000,
      mk_txn ''T08'' ''S08'' ''M'' 50 2100000,
      mk_txn ''T09'' ''S09'' ''M'' 50 2400000,
      mk_txn ''T10'' ''S10'' ''M'' 50 2700000,
      mk_txn ''T11'' ''M'' ''A'' 1000 5000000,
      mk_txn ''T12'' ''A'' ''B'' 1000 5007200,
      mk_txn ''T13'' ''B'' ''M'' 1000 5014400]"

definition merchant_patterns :: "account \<Rightarrow> string set" where
  "merchant_patterns acc =
     (if acc = ''M'' then {''merchant'', ''cycle_length_3''}
      else if acc \<in> {''A'', ''B''} then {''cycle_length_3'', ''low_variance''}
      else {})"

definition merchant_anomaly :: "account \<Rightarrow> real" where
  "merchant_anomaly acc =
     (if acc = ''M'' then 15 else if acc = ''A'' then 1 else if acc = ''B'' then 2 else 0)"

definition merchant_engine :: engine where
  "merchant_engine =
     fresh_engine\<lparr>df := Some merchant_graph, G := Some merchant_graph,
       account_patterns := merchant_patterns, immune_accounts := {''M''}\<rparr>"

text \<open>
  Edge selections of a 4-cycle \<open>A, B, C, D\<close> and of a 3-cycle: one whose span is exactly
  72 hours and whose amounts all lie 15 percent off their mean of 100, the same with the
  last edge one second later, and one whose smallest amount is 0.70 of its largest.
\<close>

definition boundary_selection :: "txn list" where
  "boundary_selection =
     [mk_txn ''T1'' ''A'' ''B'' 85 0,
      mk_txn ''T2'' ''B'' ''C'' 115 3600,
      mk_txn ''T3'' ''C'' ''D'' 85 7200,
      mk_txn ''T4'' ''D'' ''A'' 115 259200]"

definition late_selection :: "txn list" where
  "late_selection =
     [mk_txn ''T1'' ''A'' ''B'' 85 0,
      mk_txn ''T2'' ''B'' ''C'' 115 3600,
      mk_txn ''T3'' ''C'' ''D'' 85 7200,
      mk_txn ''T4'' ''D'' ''A'' 115 259201]"

definition ratio_selection :: "txn list" where
  "ratio_selection =
     [mk_txn ''T1'' ''A'' ''B'' 100 0,
      mk_txn ''T2'' ''B'' ''C'' 70 3600,
      mk_txn ''T3'' ''C'' ''A'' 100 7200]"

text \<open>
  A hub \<open>H\<close> that receives from five senders within five hours and pays \<open>Q\<close> an hour
  later: once with inbound amounts of 0, once with inbound amounts of 100.
\<close>

definition zero_graph :: graph where
  "zero_graph =
     [mk_txn ''T1'' ''P1'' ''H'' 0 0,
      mk_txn ''T2'' ''P2'' ''H'' 0 3600,
      mk_txn ''T3'' ''P3'' ''H'' 0 7200,
      mk_txn ''T4'' ''P4'' ''H'' 0 10800,
      mk_txn ''T5'' ''P5'' ''H'' 0 14400,
      mk_txn ''T6'' ''H'' ''Q'' 100 18000]"

definition zero_engine :: engine where
  "zero_engine =
     fresh_engine\<lparr>df := Some zero_graph, G := Some zero_graph,
       smurf_candidates := extract_smurf_candidates zero_graph\<rparr>"

definition paid_graph :: graph where
  "paid_graph =
     [mk_txn ''T1'' ''P1'' ''H'' 100 0,
      mk_txn ''T2'' ''P2'' ''H'' 100 3600,
      mk_txn ''T3'' ''P3'' ''H'' 100 7200,
      mk_txn ''T4'' ''P4'' ''H'' 100 10800,
      mk_txn ''T5'' ''P5'' ''H'' 100 14400,
      mk_txn ''T6'' ''H'' ''Q'' 400 18000]"

definition paid_engine :: engine where
  "paid_engine =
     fresh_engine\<lparr>df := Some paid_graph, G := Some paid_graph,
       smurf_candidates := extract_smurf_candidates paid_graph\<rparr>"

definition hub_candidate :: "real \<Rightarrow> real \<Rightarrow> smurf_candidate" where
  "hub_candidate a b =
     \<lparr>sc_hub = ''H'',
      sc_in_txns =
        [\<lparr>ev_ts = 0, ev_amt = a, ev_peer = ''P1''\<rparr>,
         \<lparr>ev_ts = 3600, ev_amt = a, ev_peer = ''P2''\<rparr>,
         \<lparr>ev_ts = 7200, ev_amt = a, ev_peer = ''P3''\<rparr>,
         \<lparr>ev_ts = 10800, ev_amt = a, ev_peer = ''P4''\<rparr>,
         \<lparr>ev_ts = 14400, ev_amt = a, ev_peer = ''P5''\<rparr>],
      sc_out_txns = [\<lparr>ev_ts = 18000, ev_amt = b, ev_peer = ''Q''\<rparr>],
      sc_w_start = 0, sc_w_end = 259200\<rparr>"

text \<open>A candidate with twelve inbound and five outbound peers: eighteen accounts.\<close>

definition big_candidate :: smurf_candidate where
  "big_candidate =
     \<lparr>sc_hub = ''H'',
      sc_in_txns =
        map (\<lambda>(t, p). \<lparr>ev_ts = t, ev_amt = 100, ev_peer = p\<rparr>)
          [(0, ''I01''), (600, ''I02''), (1200, ''I03''), (1800, ''I04''), (2400, ''I05''),
           (3000, ''I06''), (3600, ''I07''), (4200, ''I08''), (4800, ''I09''), (5400, ''I10''),
           (6000, ''I11''), (6600, ''I12'')],
      sc_out_txns =
        map (\<lambda>(t, p). \<lparr>ev_ts = t, ev_amt = 200, ev_peer = p\<rparr>)
          [(7200, ''O5''), (7800, ''O4''), (8400, ''O3''), (9000, ''O2''), (9600, ''O1'')],
      sc_w_start = 0, sc_w_end = 259200\<rparr>"

text \<open>
  A table of three rows, of which the second has an amount and the third a timestamp that
  do not parse, and the same table without its \<^verbatim>\<open>amount\<close> column. The cells are strings;
  the two parsers know the cells of these rows.
\<close>

definition toy_pandas :: "string pandas" where
  "toy_pandas =
     \<lparr>to_numeric = map_of [(''100.0'', 100), (''250.5'', 2505 / 10)],
      to_datetime = map_of [(''2024-01-01 00:00:00'', 0), (''2024-01-01 01:00:00'', 3600)],
      astype_str = (\<lambda>c. c)\<rparr>"

definition mk_row :: "string \<Rightarrow> string \<Rightarrow> string \<Rightarrow> string \<Rightarrow> string \<Rightarrow> string \<Rightarrow> string" where
  "mk_row i s r a t c =
     (if c = ''transaction_id'' then i else if c = ''sender_id'' then s
      else if c = ''receiver_id'' then r else if c = ''amount'' then a
      else if c = ''timestamp'' then t else [])"

definition toy_rows :: "(string \<Rightarrow> string) list" where
  "toy_rows =
     [mk_row ''T1'' ''A'' ''B'' ''250.5'' ''2024-01-01 01:00:00'',
      mk_row ''T2'' ''B'' ''C'' ''n/a'' ''2024-01-01 00:00:00'',
      mk_row ''T3'' ''C'' ''A'' ''100.0'' ''yesterday'',
      mk_row ''T4'' ''C'' ''A'' ''100.0'' ''2024-01-01 00:00:00'']"

definition toy_frame :: "string dataframe" where
  "toy_frame =
     \<lparr>columns = [''transaction_id'', ''sender_id'', ''receiver_id'', ''amount'', ''timestamp''],
      rows = toy_rows\<rparr>"

definition short_frame :: "string dataframe" where
  "short_frame =
     \<lparr>columns = [''transaction_id'', ''sender_id'', ''receiver_id'', ''timestamp''],
      rows = toy_rows\<rparr>"

text \<open>
  A shell chain \<open>S, C, E\<close> through the shell candidate \<open>C\<close>, whose source \<open>S\<close> also pays
  one outsider (one external edge against two internal ones), or two outsiders.
\<close>

definition shell_graph_eq :: graph where
  "shell_graph_eq =
     [mk_txn ''T1'' ''S'' ''C'' 1000 0,
      mk_txn ''T2'' ''C'' ''E'' 1000 3600,
      mk_txn ''T3'' ''S'' ''X1'' 100 7200]"

definition shell_graph_ext :: graph where
  "shell_graph_ext = shell_graph_eq @ [mk_txn ''T4'' ''S'' ''X2'' 100 10800]"

definition shell_start :: shell_state where
  "shell_start = \<lparr>seen = {}, shell_ring_count = 0, stopped = False, shell_engine = fresh_engine\<rparr>"

section \<open>The flag threshold\<close>

lemma round_half_even_bounds:
  "\<lfloor>x\<rfloor> \<le> round_half_even x" "round_half_even x \<le> \<lfloor>x\<rfloor> + 1"
  by (simp_all add: round_half_even_def Let_def)

lemma round_half_even_lt_250: "round_half_even y < 250 \<longleftrightarrow> y < 499 / 2"
proof
  assume a: "round_half_even y < 250"
  show "y < 499 / 2"
  proof (rule ccontr)
    assume "\<not> y < 499 / 2"
    then have y: "499 / 2 \<le> y" by simp
    then have "249 \<le> \<lfloor>y\<rfloor>" by (simp add: le_floor_iff)
    moreover have "\<lfloor>y\<rfloor> < 250" using a round_half_even_bounds(1) [of y] by linarith
    ultimately have f: "\<lfloor>y\<rfloor> = 249" by linarith
    with y a show False
      by (auto simp: round_half_even_def Let_def split: if_splits)
  qed
next
  assume y: "y < 499 / 2"
  then have "y < 250" by simp
  then have f: "\<lfloor>y\<rfloor> < 250" by (simp add: floor_less_iff)
  show "round_half_even y < 250"
  proof (cases "\<lfloor>y\<rfloor> = 249")
    case True
    with y show ?thesis by (simp add: round_half_even_def Let_def)
  next
    case False
    with f have "\<lfloor>y\<rfloor> < 249" by linarith
    then show ?thesis using round_half_even_bounds(2) [of y] by linarith
  qed
qed

lemma round1_lt_25: "round1 x < 25 \<longleftrightarrow> x < 2495 / 100"
proof -
  have "round1 x < 25 \<longleftrightarrow> round_half_even (x * 10) < 250"
    unfolding round1_def by (simp add: divide_less_eq)
  also have "\<dots> \<longleftrightarrow> x * 10 < 499 / 2" by (rule round_half_even_lt_250)
  also have "\<dots> \<longleftrightarrow> x < 2495 / 100" by auto
  finally show ?thesis .
qed

lemma apply_flag_threshold_range:
  "apply_flag_threshold s = 0 \<or> 25 \<le> apply_flag_threshold s"
  by (simp add: apply_flag_threshold_def FLAG_THRESHOLD_def Let_def)

lemma apply_flag_threshold_0 [simp]: "apply_flag_threshold 0 = 0"
  by (simp add: apply_flag_threshold_def FLAG_THRESHOLD_def Let_def round1_lt_25)

text \<open>
  C3, as the spec states it, fails: the source rounds first and compares the rounded
  score with the threshold, so a score of 24.96 before rounding is stored as 25.0.
\<close>

theorem flag_threshold_counterexample:
  "(2496 / 100 :: real) < 25 \<and> apply_flag_threshold (2496 / 100) = 25
   \<and> apply_flag_threshold (2496 / 100) \<noteq> 0"
  by code_simp

text \<open>
  C3, amended: the stored score is 0 exactly when the score after suppression is below
  24.95, which is when its clamped value rounds to less than 25.0; otherwise the stored
  score is the score, capped at 100, rounded to one decimal place.
\<close>

theorem flag_threshold_after_rounding:
  "apply_flag_threshold s = (if s < 2495 / 100 then 0 else round1 (min 100 s))"
proof (cases "s < 2495 / 100")
  case True
  then have "max 0 (min 100 s) < 2495 / 100" by simp
  then show ?thesis using True
    by (simp add: apply_flag_threshold_def FLAG_THRESHOLD_def Let_def round1_lt_25
        del: max_less_iff_conj)
next
  case False
  then have m: "max 0 (min 100 s) = min 100 s" by (simp add: max_def min_def)
  from False have "\<not> min 100 s < 2495 / 100" by simp
  then show ?thesis using False
    by (simp add: apply_flag_threshold_def FLAG_THRESHOLD_def Let_def round1_lt_25 m)
qed

section \<open>Evaluating the scoring passes\<close>

lemma foldl_map_upd:
  "foldl (\<lambda>pre n. pre(n \<mapsto> f n)) m ns x = (if x \<in> set ns then Some (f x) else m x)"
  by (induction ns arbitrary: m) auto

lemma get0_first_pass:
  "get0 (first_pass e a ns) n = (if n \<in> set ns then preliminary_score e a n else 0)"
  by (simp add: get0_def first_pass_def foldl_map_upd)

lemma get0_upd: "get0 (m(k \<mapsto> v)) n = (if n = k then v else get0 m n)"
  by (simp add: get0_def)

lemma card_filter_lists:
  "card {n \<in> set xs \<union> set ys. P n} = length (filter P (remdups (xs @ ys)))"
proof -
  have eq: "{n \<in> set xs \<union> set ys. P n} = set (filter P (remdups (xs @ ys)))" by auto
  show ?thesis unfolding eq by (rule distinct_card) simp
qed

lemma isolation_step_eq:
  "isolation_step g (pre, pats) node =
     (if get0 pre node \<le> 0
         \<or> length (filter (\<lambda>n. get0 pre n > 30)
               (remdups (predecessors g node @ successors g node))) < 2
      then (pre, pats)
      else (pre(node \<mapsto> get0 pre node + 8),
            pats(node := insert ''isolation_cluster'' (pats node))))"
  unfolding card_filter_lists [symmetric] by (auto simp: isolation_step_def Let_def)

lemma update_values:
  "(k', v') \<in> set (AList.update k v d) \<Longrightarrow> (k', v') = (k, v) \<or> (k', v') \<in> set d"
  by (induction d) (auto split: if_splits)

lemma foldl_update_values:
  "(k, v) \<in> set (foldl (\<lambda>d n. AList.update n (f n) d) d0 ns) \<Longrightarrow>
     (k, v) \<in> set d0 \<or> (\<exists>n \<in> set ns. v = f n)"
proof (induction ns arbitrary: d0)
  case Nil
  then show ?case by simp
next
  case (Cons n ns)
  from Cons.IH [OF Cons.prems [simplified]]
  show ?case by (auto dest: update_values)
qed

lemma map_of_foldl_update:
  "map_of (foldl (\<lambda>d n. AList.update n (f n) d) d0 ns) k =
     (if k \<in> set ns then Some (f k) else map_of d0 k)"
  by (induction ns arbitrary: d0) (auto simp: update_conv')

text \<open>The state after the second pass, and the score stored for a node of the graph.\<close>

definition second_pass_state ::
  "(account \<Rightarrow> real) \<Rightarrow> engine \<Rightarrow> graph \<Rightarrow> (account \<rightharpoonup> real) \<times> (account \<Rightarrow> string set)" where
  "second_pass_state anomaly_bonus e g =
     isolation_pass g (first_pass e anomaly_bonus (nodes g), account_patterns e) (nodes g)"

lemma calculate_suspicion_scores_eq:
  assumes "G e = Some g" "nodes g \<noteq> []"
  shows "calculate_suspicion_scores a e =
     e\<lparr>account_patterns := snd (second_pass_state a e g),
       suspicion_scores :=
         foldl (\<lambda>d node. AList.update node
                  (suppressed_score e (snd (second_pass_state a e g))
                     (fst (second_pass_state a e g)) node) d)
           (suspicion_scores e) (nodes g)\<rparr>"
  using assms by (simp add: calculate_suspicion_scores_def second_pass_state_def Let_def)

lemma stored_score:
  assumes "G e = Some g" "node \<in> set (nodes g)"
  shows "map_of (suspicion_scores (calculate_suspicion_scores a e)) node =
     Some (suppressed_score e (snd (second_pass_state a e g)) (fst (second_pass_state a e g)) node)"
proof -
  from assms(2) have "nodes g \<noteq> []" by auto
  from calculate_suspicion_scores_eq [OF assms(1) this] assms(2)
  show ?thesis by (simp add: map_of_foldl_update)
qed

lemma scores_after_scoring:
  assumes "suspicion_scores e = []"
    and "(acc, s) \<in> set (suspicion_scores (calculate_suspicion_scores anomaly e))"
  shows "s = 0 \<or> 25 \<le> s"
proof (cases "G e")
  case None
  with assms show ?thesis by (simp add: calculate_suspicion_scores_def)
next
  case (Some g)
  show ?thesis
  proof (cases "nodes g = []")
    case True
    with Some assms show ?thesis by (simp add: calculate_suspicion_scores_def)
  next
    case False
    from assms(2) have "(acc, s) \<in> set (foldl (\<lambda>d node. AList.update node
        (suppressed_score e (snd (second_pass_state anomaly e g))
           (fst (second_pass_state anomaly e g)) node) d) (suspicion_scores e) (nodes g))"
      unfolding calculate_suspicion_scores_eq [OF Some False] by simp
    from foldl_update_values [OF this] assms(1)
    obtain n where "s = suppressed_score e (snd (second_pass_state anomaly e g))
           (fst (second_pass_state anomaly e g)) n"
      by auto
    then show ?thesis
      using apply_flag_threshold_range by (simp add: suppressed_score_def Let_def)
  qed
qed

section \<open>The suspicious accounts of the result document\<close>

lemma suspicious_entry_in:
  assumes "(acc, s) \<in> set (suspicion_scores e)" "0 < s"
  shows "suspicious_entry e acc s \<in> set (suspicious_accounts e)"
  using assms by (force simp: suspicious_accounts_def)

lemma suspicious_entry_of:
  assumes "x \<in> set (suspicious_accounts e)"
  obtains acc s where "(acc, s) \<in> set (suspicion_scores e)" "0 < s" "x = suspicious_entry e acc s"
  using assms by (auto simp: suspicious_accounts_def)

text \<open>
  C9: after \<^verbatim>\<open>calculate_suspicion_scores\<close> on an engine whose score dictionary was empty,
  as \<^verbatim>\<open>__init__\<close> leaves it, every entry of \<^verbatim>\<open>suspicious_accounts\<close> has a score of at least
  25 and a sorted, duplicate-free list of patterns, and the array is sorted by
  (-score, account id).
\<close>

theorem suspicious_accounts_invariants:
  assumes "suspicion_scores e = []"
  shows "(\<forall>x \<in> set (suspicious_accounts (calculate_suspicion_scores anomaly e)).
            25 \<le> suspicion_score x \<and> sorted (detected_patterns x) \<and> distinct (detected_patterns x))
       \<and> sorted (map (\<lambda>x. (- suspicion_score x, account_id x))
            (suspicious_accounts (calculate_suspicion_scores anomaly e)))"
proof -
  let ?e = "calculate_suspicion_scores anomaly e"
  have "25 \<le> suspicion_score x \<and> sorted (detected_patterns x) \<and> distinct (detected_patterns x)"
    if "x \<in> set (suspicious_accounts ?e)" for x
  proof -
    from that obtain acc s where m: "(acc, s) \<in> set (suspicion_scores ?e)"
      and pos: "0 < s" and x: "x = suspicious_entry ?e acc s"
      by (rule suspicious_entry_of)
    from scores_after_scoring [OF assms m] pos have "25 \<le> s" by auto
    with x show ?thesis by (simp add: suspicious_entry_def)
  qed
  moreover have "sorted (map (\<lambda>x. (- suspicion_score x, account_id x)) (suspicious_accounts ?e))"
    unfolding suspicious_accounts_def by (rule sorted_sort_key)
  ultimately show ?thesis by blast
qed

section \<open>The ring id of a suspicious account\<close>

lemma account_rings_add_eq:
  "account_rings_add ar r acc =
     ar acc @ replicate (count_list (member_accounts r) acc) (ring_id r)"
proof -
  have "foldl (\<lambda>m a. m(a := m a @ [rid])) ar ms acc = ar acc @ replicate (count_list ms acc) rid"
    for ms rid
    by (induction ms arbitrary: ar) (auto simp: replicate_append_same)
  then show ?thesis by (simp add: account_rings_add_def)
qed

lemma foldl_account_rings_add:
  "foldl account_rings_add ar rs acc =
     ar acc @ concat (map (\<lambda>r. replicate (count_list (member_accounts r) acc) (ring_id r)) rs)"
  by (induction rs arbitrary: ar) (simp_all add: account_rings_add_eq)

lemma account_rings_first:
  "(case account_rings rs acc of [] \<Rightarrow> ''NONE'' | rid # _ \<Rightarrow> rid) =
   (case find (\<lambda>r. acc \<in> set (member_accounts r)) rs of
      None \<Rightarrow> ''NONE'' | Some r \<Rightarrow> ring_id r)"
proof -
  have "(case concat (map (\<lambda>r. replicate (count_list (member_accounts r) acc) (ring_id r)) rs) of
           [] \<Rightarrow> ''NONE'' | rid # _ \<Rightarrow> rid) =
        (case find (\<lambda>r. acc \<in> set (member_accounts r)) rs of
           None \<Rightarrow> ''NONE'' | Some r \<Rightarrow> ring_id r)"
  proof (induction rs)
    case Nil
    then show ?case by simp
  next
    case (Cons r rs)
    show ?case
    proof (cases "acc \<in> set (member_accounts r)")
      case True
      then have "count_list (member_accounts r) acc \<noteq> 0"
        using count_list_0_iff [of "member_accounts r" acc] by blast
      then obtain k where "count_list (member_accounts r) acc = Suc k"
        by (cases "count_list (member_accounts r) acc") auto
      with True show ?thesis by simp
    next
      case False
      then have "count_list (member_accounts r) acc = 0"
        using count_list_0_iff [of "member_accounts r" acc] by blast
      with False Cons.IH show ?thesis by simp
    qed
  qed
  then show ?thesis by (simp add: account_rings_def foldl_account_rings_add)
qed

text \<open>
  C10: every account with a stored score above 0 has an entry, and the ring id of an
  entry is that of the first ring of \<^verbatim>\<open>fraud_rings\<close> that lists the account, or
  \<^verbatim>\<open>NONE\<close> when no ring lists it.
\<close>

theorem ring_id_is_first_ring:
  "(\<forall>x \<in> set (suspicious_accounts e).
      acc_ring_id x =
        (case find (\<lambda>r. account_id x \<in> set (member_accounts r)) (fraud_rings e) of
           None \<Rightarrow> ''NONE'' | Some r \<Rightarrow> ring_id r))
   \<and> (\<forall>(acc, s) \<in> set (suspicion_scores e). 0 < s \<longrightarrow>
        (\<exists>x \<in> set (suspicious_accounts e). account_id x = acc \<and> suspicion_score x = s))"
proof -
  have "acc_ring_id x =
        (case find (\<lambda>r. account_id x \<in> set (member_accounts r)) (fraud_rings e) of
           None \<Rightarrow> ''NONE'' | Some r \<Rightarrow> ring_id r)" if "x \<in> set (suspicious_accounts e)" for x
  proof -
    from that obtain acc s where "x = suspicious_entry e acc s"
      by (rule suspicious_entry_of)
    then show ?thesis by (simp add: suspicious_entry_def account_rings_first)
  qed
  moreover have "\<exists>x \<in> set (suspicious_accounts e). account_id x = acc \<and> suspicion_score x = s"
    if "(acc, s) \<in> set (suspicion_scores e)" "0 < s" for acc s
  proof -
    from that have "suspicious_entry e acc s \<in> set (suspicious_accounts e)"
      by (rule suspicious_entry_in)
    then show ?thesis by (force simp: suspicious_entry_def)
  qed
  ultimately show ?thesis by blast
qed

theorem ring_id_is_first_ring_witness:
  "map (\<lambda>x. (account_id x, acc_ring_id x)) (suspicious_accounts two_ring_engine) =
     [(''A'', ''RING_001''), (''C'', ''RING_001''), (''Q'', ''NONE'')]
   \<and> list_all (\<lambda>x. acc_ring_id x =
        (case find (\<lambda>r. account_id x \<in> set (member_accounts r)) (fraud_rings two_ring_engine) of
           None \<Rightarrow> ''NONE'' | Some r \<Rightarrow> ring_id r)) (suspicious_accounts two_ring_engine)"
proof -
  have "map (\<lambda>x. (account_id x, acc_ring_id x)) (suspicious_accounts two_ring_engine) =
     [(''A'', ''RING_001''), (''C'', ''RING_001''), (''Q'', ''NONE'')]"
    by code_simp
  with ring_id_is_first_ring [of two_ring_engine] show ?thesis
    by (simp add: list_all_iff)
qed

section \<open>The isolation-cluster pass on a concrete graph\<close>

lemma iso_nodes:
  "nodes iso_graph =
     [''X'', ''P'', ''Q'', ''R'', ''Y1'', ''Y2'', ''Y3'', ''Z'', ''A'', ''B'', ''C'', ''D'']"
  by code_simp

lemma iso_neighbors:
  "map (\<lambda>n. remdups (predecessors iso_graph n @ successors iso_graph n))
     [''X'', ''P'', ''Q'', ''R'', ''Y1'', ''Y2'', ''Y3'', ''Z'', ''A'', ''B'', ''C'', ''D''] =
   [[''R'', ''Z'', ''P'', ''Y1'', ''Y2''], [''X'', ''Q''], [''P'', ''R''], [''Q'', ''X''],
    [''Y3'', ''X'', ''Z'', ''Y2''], [''Y1'', ''X'', ''Y3''], [''Y2'', ''Y1''],
    [''D'', ''A'', ''X'', ''Y1''], [''Z'', ''B''], [''A'', ''C''], [''B'', ''D''], [''C'', ''Z'']]"
  by code_simp

lemma iso_prelim:
  "map (preliminary_score iso_engine iso_anomaly)
     [''X'', ''P'', ''Q'', ''R'', ''Y1'', ''Y2'', ''Y3'', ''Z'', ''A'', ''B'', ''C'', ''D'']
    = [25, 40, 25, 25, 35, 35, 35, 20, 20, 20, 20, 20]"
  by code_simp

lemma iso_fields:
  "G iso_engine = Some iso_graph" "account_patterns iso_engine = iso_patterns"
  "immune_accounts iso_engine = {}" "high_degree_hubs iso_engine = {}"
  "suspicion_scores iso_engine = []"
  by (simp_all add: iso_engine_def fresh_engine_def)

lemma iso_second_pass:
  "second_pass_state iso_anomaly iso_engine iso_graph =
     ((first_pass iso_engine iso_anomaly (nodes iso_graph))
        (''X'' \<mapsto> 33, ''Y1'' \<mapsto> 43, ''Y2'' \<mapsto> 43, ''Y3'' \<mapsto> 43, ''Z'' \<mapsto> 28),
      iso_patterns
        (''X'' := insert ''isolation_cluster'' (iso_patterns ''X''),
         ''Y1'' := insert ''isolation_cluster'' (iso_patterns ''Y1''),
         ''Y2'' := insert ''isolation_cluster'' (iso_patterns ''Y2''),
         ''Y3'' := insert ''isolation_cluster'' (iso_patterns ''Y3''),
         ''Z'' := insert ''isolation_cluster'' (iso_patterns ''Z'')))"
  using iso_prelim iso_neighbors
  by (simp add: second_pass_state_def iso_fields isolation_pass_def iso_nodes isolation_step_eq
      get0_first_pass get0_upd)

lemma iso_thresholds:
  "map apply_flag_threshold [20, 25, 28, 33, 40, 43] = [0, 25, 28, 33, 40, 43]"
  by code_simp

lemma iso_scores:
  "suspicion_scores (calculate_suspicion_scores iso_anomaly iso_engine) =
     [(''X'', 33), (''P'', 40), (''Q'', 25), (''R'', 25), (''Y1'', 43), (''Y2'', 43),
      (''Y3'', 43), (''Z'', 28), (''A'', 0), (''B'', 0), (''C'', 0), (''D'', 0)]"
  using iso_prelim iso_thresholds
  by (simp add: calculate_suspicion_scores_eq [of _ iso_graph] iso_fields iso_second_pass
      iso_nodes suppressed_score_def get0_first_pass get0_upd iso_patterns_def
      STRONG_FRAUD_PATTERNS_def insert_Diff_if)

lemma iso_reverse_pass:
  "fst (isolation_pass iso_graph (first_pass iso_engine iso_anomaly (nodes iso_graph), iso_patterns)
          (rev (nodes iso_graph))) ''Z'' = Some 20"
  using iso_prelim iso_neighbors
  by (simp add: isolation_pass_def iso_nodes isolation_step_eq get0_first_pass get0_upd
      first_pass_def foldl_map_upd)

text \<open>
  C4 on the graph \<open>iso_graph\<close>: after steps 1-3 the account \<open>Z\<close> has the score 20 and one
  neighbour above 30 (\<open>Y1\<close>; its neighbour \<open>X\<close> has 25). The pass handles \<open>X\<close> before \<open>Z\<close>,
  writes 33 for \<open>X\<close> into the dictionary it reads from, and then counts \<open>X\<close> for \<open>Z\<close>:
  \<open>Z\<close> gets the bonus and the label, and is stored with 28 instead of 0. Run over the
  nodes in the reverse order, the same pass leaves \<open>Z\<close> at 20.
\<close>

theorem isolation_pass_reads_updated_scores:
  "preliminary_score iso_engine iso_anomaly ''Z'' = 20
   \<and> card {n \<in> set (predecessors iso_graph ''Z'') \<union> set (successors iso_graph ''Z'').
             preliminary_score iso_engine iso_anomaly n > 30} = 1
   \<and> map_of (suspicion_scores (calculate_suspicion_scores iso_anomaly iso_engine)) ''Z'' = Some 28
   \<and> ''isolation_cluster'' \<in> account_patterns (calculate_suspicion_scores iso_anomaly iso_engine) ''Z''
   \<and> fst (isolation_pass iso_graph (first_pass iso_engine iso_anomaly (nodes iso_graph), iso_patterns)
            (rev (nodes iso_graph))) ''Z'' = Some 20"
proof -
  have "card {n \<in> set (predecessors iso_graph ''Z'') \<union> set (successors iso_graph ''Z'').
             preliminary_score iso_engine iso_anomaly n > 30} = 1"
    unfolding card_filter_lists using iso_prelim iso_neighbors by simp
  moreover have "''isolation_cluster'' \<in>
      account_patterns (calculate_suspicion_scores iso_anomaly iso_engine) ''Z''"
    by (simp add: calculate_suspicion_scores_eq [of _ iso_graph] iso_fields iso_nodes iso_second_pass)
  ultimately show ?thesis
    using iso_prelim iso_reverse_pass by (simp add: iso_scores)
qed

text \<open>The witness of C9, on the same engine: eight accounts are reported.\<close>

theorem suspicious_accounts_invariants_witness:
  "suspicion_scores iso_engine = []
   \<and> length (suspicious_accounts (calculate_suspicion_scores iso_anomaly iso_engine)) = 8
   \<and> list_all (\<lambda>x. 25 \<le> suspicion_score x \<and> sorted (detected_patterns x)
                    \<and> distinct (detected_patterns x))
       (suspicious_accounts (calculate_suspicion_scores iso_anomaly iso_engine))
   \<and> sorted (map (\<lambda>x. (- suspicion_score x, account_id x))
       (suspicious_accounts (calculate_suspicion_scores iso_anomaly iso_engine)))"
proof -
  have h: "suspicion_scores iso_engine = []" by (rule iso_fields)
  have "length (suspicious_accounts (calculate_suspicion_scores iso_anomaly iso_engine)) = 8"
    by (simp add: suspicious_accounts_def iso_scores)
  with h suspicious_accounts_invariants [OF h, of iso_anomaly] show ?thesis
    by (simp add: list_all_iff)
qed

section \<open>Rings that share an account\<close>

text \<open>
  C1 on two concrete candidate lists. A candidate whose overlap with the claimed nodes
  is at most 0.6 is accepted with all of its members, the claimed ones included: the
  shell chain \<open>C, D, E\<close> becomes a ring although \<open>C\<close> is in the ring of the cycle. And a
  candidate merged into a ring brings every member that is not in that ring, also one
  that another ring holds: \<open>D\<close> ends in both rings of the second list.
\<close>

theorem arbitration_shares_account:
  "map (\<lambda>r. (ring_id r, member_accounts r)) (arbitrate_rings iter overlap_candidates) =
     [(''RING_001'', [''A'', ''B'', ''C'']), (''RING_002'', [''C'', ''D'', ''E''])]
   \<and> length (filter (\<lambda>r. ''C'' \<in> set (member_accounts r))
               (arbitrate_rings iter overlap_candidates)) = 2
   \<and> map (\<lambda>r. (ring_id r, member_accounts r))
        (arbitrate_rings sorted_list_of_set merge_candidates) =
     [(''RING_001'', [''A'', ''B'', ''C'', ''D'']), (''RING_002'', [''D'', ''E'', ''F''])]"
  by code_simp

section \<open>Smurf consolidation returns, and invents no member\<close>

text \<open>
  The \<^verbatim>\<open>parent\<close> array stays a forest: some ranking of the indices grows along every
  parent link that is not a loop at a root. Path halving and the link of one root under
  another keep such a ranking, and \<^verbatim>\<open>find\<close> climbs it, so every \<^verbatim>\<open>find\<close> ends.
\<close>

definition uf_ranked :: "(nat \<Rightarrow> nat) \<Rightarrow> nat list \<Rightarrow> bool" where
  "uf_ranked g p \<longleftrightarrow> (\<forall>i<length p. p ! i < length p \<and> (p ! i \<noteq> i \<longrightarrow> g i < g (p ! i)))"

definition uf_inv :: "nat list \<Rightarrow> bool" where
  "uf_inv p \<longleftrightarrow> (\<exists>g. uf_ranked g p)"

lemma uf_halve_ranked:
  assumes r: "uf_ranked g q" and y: "y < length q" and b: "q ! y \<noteq> y"
  shows "uf_ranked g (q[y := q ! (q ! y)])" "g y < g (q ! (q ! y))" "q ! (q ! y) < length q"
proof -
  from r y b have 1: "q ! y < length q" "g y < g (q ! y)" by (auto simp: uf_ranked_def)
  from r 1(1) have 2: "q ! (q ! y) < length q" "q ! (q ! y) \<noteq> q ! y \<longrightarrow> g (q ! y) < g (q ! (q ! y))"
    by (auto simp: uf_ranked_def)
  show 3: "g y < g (q ! (q ! y))" using 1(2) 2(2) by (cases "q ! (q ! y) = q ! y") auto
  show "q ! (q ! y) < length q" by (rule 2(1))
  show "uf_ranked g (q[y := q ! (q ! y)])"
    unfolding uf_ranked_def
  proof (intro allI impI)
    fix i assume i: "i < length (q[y := q ! (q ! y)])"
    show "q[y := q ! (q ! y)] ! i < length (q[y := q ! (q ! y)]) \<and>
          (q[y := q ! (q ! y)] ! i \<noteq> i \<longrightarrow> g i < g (q[y := q ! (q ! y)] ! i))"
    proof (cases "i = y")
      case True
      with y 2(1) 3 show ?thesis by simp
    next
      case False
      with r i show ?thesis by (auto simp: uf_ranked_def)
    qed
  qed
qed

definition uf_cond :: "nat list \<times> nat \<Rightarrow> bool" where
  "uf_cond = (\<lambda>(q, y). q ! y \<noteq> y)"

definition uf_body :: "nat list \<times> nat \<Rightarrow> nat list \<times> nat" where
  "uf_body = (\<lambda>(q, y). let q = q[y := q ! (q ! y)] in (q, q ! y))"

lemma uf_find_alt: "uf_find p x = while_option uf_cond uf_body (p, x)"
  by (simp add: uf_find_def uf_cond_def uf_body_def)

definition uf_loop_inv :: "(nat \<Rightarrow> nat) \<Rightarrow> nat list \<Rightarrow> nat list \<times> nat \<Rightarrow> bool" where
  "uf_loop_inv g p s \<longleftrightarrow>
     uf_ranked g (fst s) \<and> length (fst s) = length p \<and> snd s < length p
     \<and> (\<forall>i. p ! i = i \<longrightarrow> fst s ! i = i)"

lemma uf_body_step:
  assumes P: "uf_loop_inv g p s" and b: "uf_cond s"
  shows "uf_loop_inv g p (uf_body s)" "g (snd s) < g (snd (uf_body s))"
proof -
  obtain q y where s: "s = (q, y)" by (cases s)
  from P b s have r: "uf_ranked g q" and l: "length q = length p" and y: "y < length q"
    and c: "q ! y \<noteq> y" and fx: "\<forall>i. p ! i = i \<longrightarrow> q ! i = i"
    by (simp_all add: uf_loop_inv_def uf_cond_def)
  note h = uf_halve_ranked [OF r y c]
  have fx': "\<forall>i. p ! i = i \<longrightarrow> q[y := q ! (q ! y)] ! i = i"
    using fx c by (metis nth_list_update_neq)
  have body: "uf_body s = (q[y := q ! (q ! y)], q ! (q ! y))"
    using y by (simp add: s uf_body_def Let_def)
  show "uf_loop_inv g p (uf_body s)"
    unfolding body uf_loop_inv_def using h l fx' by simp
  show "g (snd s) < g (snd (uf_body s))"
    unfolding body using h(2) by (simp add: s)
qed

lemma uf_find_total:
  assumes r: "uf_ranked g p" and x: "x < length p"
  shows "\<exists>p' r. uf_find p x = Some (p', r) \<and> uf_ranked g p' \<and> length p' = length p
           \<and> r < length p \<and> p' ! r = r \<and> (\<forall>i. p ! i = i \<longrightarrow> p' ! i = i)"
proof -
  define B where "B = Max (g ` {..<length p})"
  have gB: "g i \<le> B" if "i < length p" for i
    unfolding B_def using that by (intro Max_ge) auto
  have sub: "{(t, s). (uf_loop_inv g p s \<and> uf_cond s) \<and> t = uf_body s} \<subseteq> measure (\<lambda>s. B - g (snd s))"
  proof
    fix z assume "z \<in> {(t, s). (uf_loop_inv g p s \<and> uf_cond s) \<and> t = uf_body s}"
    then obtain t s where z: "z = (t, s)" and P: "uf_loop_inv g p s" and b: "uf_cond s"
      and c: "t = uf_body s"
      by blast
    from uf_body_step [OF P b] c have 1: "uf_loop_inv g p t" and 2: "g (snd s) < g (snd t)"
      by simp_all
    from 1 have "g (snd t) \<le> B" by (simp add: uf_loop_inv_def gB)
    with 2 show "z \<in> measure (\<lambda>s. B - g (snd s))" by (simp add: z)
  qed
  have wf: "wf {(t, s). (uf_loop_inv g p s \<and> uf_cond s) \<and> t = uf_body s}"
    by (rule wf_subset [OF wf_measure sub])
  have P0: "uf_loop_inv g p (p, x)" using r x by (simp add: uf_loop_inv_def)
  have pres: "uf_loop_inv g p (uf_body s)" if "uf_loop_inv g p s \<and> uf_cond s" for s
    using that uf_body_step(1) by blast
  from wf_while_option_Some [OF wf pres P0]
  obtain t where t: "while_option uf_cond uf_body (p, x) = Some t" by blast
  have Pt: "uf_loop_inv g p t"
    by (rule while_option_rule [where P = "uf_loop_inv g p", OF _ t P0]) (rule uf_body_step(1))
  have nb: "\<not> uf_cond t" by (rule while_option_stop [OF t])
  obtain p' r' where t': "t = (p', r')" by (cases t)
  from Pt nb show ?thesis
    unfolding uf_find_alt t t' by (simp add: uf_loop_inv_def uf_cond_def)
qed

lemma uf_union_total:
  assumes r: "uf_inv p" and a: "a < length p" and b: "b < length p"
  shows "\<exists>p'. uf_union p a b = Some p' \<and> uf_inv p' \<and> length p' = length p"
proof -
  from r obtain g where g: "uf_ranked g p" by (auto simp: uf_inv_def)
  from uf_find_total [OF g a] obtain p1 ra where
    f1: "uf_find p a = Some (p1, ra)" and g1: "uf_ranked g p1" and l1: "length p1 = length p"
    and ra: "ra < length p" and rra: "p1 ! ra = ra" by blast
  from b l1 have b1: "b < length p1" by simp
  from uf_find_total [OF g1 b1] obtain p2 rb where
    f2: "uf_find p1 b = Some (p2, rb)" and g2: "uf_ranked g p2" and l2: "length p2 = length p1"
    and rb: "rb < length p1" and rrb: "p2 ! rb = rb" and keep: "\<forall>i. p1 ! i = i \<longrightarrow> p2 ! i = i"
    by blast
  from keep rra have rra2: "p2 ! ra = ra" by simp
  show ?thesis
  proof (cases "ra = rb")
    case True
    with f1 f2 g2 l1 l2 show ?thesis by (auto simp: uf_union_def uf_inv_def)
  next
    case False
    define g' where "g' = g(ra := max (g ra) (Suc (g rb)))"
    have "uf_ranked g' (p2[rb := ra])"
      unfolding uf_ranked_def
    proof (intro allI impI)
      fix i assume "i < length (p2[rb := ra])"
      then have i: "i < length p2" by simp
      show "p2[rb := ra] ! i < length (p2[rb := ra]) \<and>
            (p2[rb := ra] ! i \<noteq> i \<longrightarrow> g' i < g' (p2[rb := ra] ! i))"
      proof (cases "i = rb")
        case True
        with i ra l1 l2 False show ?thesis by (simp add: g'_def)
      next
        case nrb: False
        from g2 i have 1: "p2 ! i < length p2" "p2 ! i \<noteq> i \<longrightarrow> g i < g (p2 ! i)"
          by (auto simp: uf_ranked_def)
        have "g' i < g' (p2 ! i)" if ne: "p2 ! i \<noteq> i"
        proof -
          from ne rra2 have "i \<noteq> ra" by auto
          then have "g' i = g i" by (simp add: g'_def)
          moreover have "g (p2 ! i) \<le> g' (p2 ! i)" by (simp add: g'_def)
          ultimately show ?thesis using 1(2) ne by simp
        qed
        with nrb 1(1) show ?thesis by simp
      qed
    qed
    with False f1 f2 l1 l2 show ?thesis by (auto simp: uf_union_def uf_inv_def)
  qed
qed

lemma union_pairs_total:
  assumes "uf_inv p" "\<forall>(i, j) \<in> set pairs. i < length p \<and> j < length p"
  shows "\<exists>p'. union_pairs sets p pairs = Some p' \<and> uf_inv p' \<and> length p' = length p"
  using assms
proof (induction pairs arbitrary: p)
  case Nil
  then show ?case by simp
next
  case (Cons ij pairs)
  obtain i j where ij: "ij = (i, j)" by (cases ij)
  from Cons.prems ij have i: "i < length p" and j: "j < length p"
    and rest: "\<forall>(i, j) \<in> set pairs. i < length p \<and> j < length p" by auto
  show ?case
  proof (cases "jaccard_similarity (sets ! i) (sets ! j) > 6 / 10")
    case True
    from uf_union_total [OF Cons.prems(1) i j] obtain p1 where
      u: "uf_union p i j = Some p1" and g1: "uf_inv p1" and l1: "length p1 = length p" by blast
    from rest l1 have "\<forall>(i, j) \<in> set pairs. i < length p1 \<and> j < length p1" by simp
    from Cons.IH [OF g1 this] True u l1 show ?thesis by (simp add: ij)
  next
    case False
    with Cons.IH [OF Cons.prems(1) rest] show ?thesis by (simp add: ij)
  qed
qed

lemma group_indices_total:
  assumes "uf_inv p" "\<forall>i \<in> set is. i < length p" "\<forall>(r, l) \<in> set groups. \<forall>i \<in> set l. i < n" "\<forall>i \<in> set is. i < n"
  shows "\<exists>gs. group_indices p groups is = Some gs \<and> (\<forall>(r, l) \<in> set gs. \<forall>i \<in> set l. i < n)"
  using assms
proof (induction "is" arbitrary: p groups)
  case Nil
  then show ?case by simp
next
  case (Cons i rest)
  from Cons.prems(1) obtain g where g: "uf_ranked g p" by (auto simp: uf_inv_def)
  from Cons.prems(2) have i: "i < length p" by simp
  from uf_find_total [OF g i] obtain p1 r where
    f: "uf_find p i = Some (p1, r)" and g1: "uf_ranked g p1" and l1: "length p1 = length p" by blast
  let ?groups = "AList.update r ((case map_of groups r of None \<Rightarrow> [] | Some l \<Rightarrow> l) @ [i]) groups"
  have old: "\<forall>j \<in> set (case map_of groups r of None \<Rightarrow> [] | Some l \<Rightarrow> l). j < n"
  proof (cases "map_of groups r")
    case None
    then show ?thesis by simp
  next
    case (Some l)
    then have "(r, l) \<in> set groups" by (rule map_of_SomeD)
    with Cons.prems(3) Some show ?thesis by auto
  qed
  have "\<forall>(r, l) \<in> set ?groups. \<forall>j \<in> set l. j < n"
  proof (clarify)
    fix r' l j assume m: "(r', l) \<in> set ?groups" and j: "j \<in> set l"
    from update_values [OF m] have "l = (case map_of groups r of None \<Rightarrow> [] | Some l \<Rightarrow> l) @ [i] \<or> (r', l) \<in> set groups"
      by auto
    then show "j < n"
    proof
      assume "l = (case map_of groups r of None \<Rightarrow> [] | Some l \<Rightarrow> l) @ [i]"
      with j old Cons.prems(4) show ?thesis by auto
    next
      assume "(r', l) \<in> set groups"
      with j Cons.prems(3) show ?thesis by auto
    qed
  qed
  moreover have "uf_inv p1" using g1 by (auto simp: uf_inv_def)
  moreover have "\<forall>i \<in> set rest. i < length p1" using Cons.prems(2) l1 by simp
  moreover have "\<forall>i \<in> set rest. i < n" using Cons.prems(4) by simp
  ultimately have "\<exists>gs. group_indices p1 ?groups rest = Some gs \<and> (\<forall>(r, l) \<in> set gs. \<forall>i \<in> set l. i < n)"
    by (intro Cons.IH)
  with f show ?case by simp
qed

definition members_within :: "candidate list \<Rightarrow> candidate list \<Rightarrow> bool" where
  "members_within out cs \<longleftrightarrow> (\<forall>c \<in> set out. set (members c) \<subseteq> (\<Union>c' \<in> set cs. set (members c')))"

lemma uf_inv_init: "uf_inv [0..<n]"
  by (auto simp: uf_inv_def uf_ranked_def)

lemma merge_group_members:
  assumes "\<forall>i \<in> set indices. i < length grp"
  shows "set (members (merge_group core grp indices)) \<subseteq> (\<Union>c' \<in> set grp. set (members c'))"
proof -
  have "set (members (merge_group core grp indices)) = (\<Union>idx\<in>set indices. set (members (grp ! idx)))"
    by (simp add: merge_group_def)
  also have "\<dots> \<subseteq> (\<Union>c' \<in> set grp. set (members c'))"
    using assms by (auto intro: nth_mem)
  finally show ?thesis .
qed

lemma consolidate_group_total:
  "\<exists>cs. consolidate_group core grp = Some cs \<and> members_within cs grp"
proof (cases "length grp = 1")
  case True
  then show ?thesis by (simp add: consolidate_group_def members_within_def) blast
next
  case False
  let ?n = "length grp"
  let ?pairs = "concat (map (\<lambda>i. map (\<lambda>j. (i, j)) [i + 1..<?n]) [0..<?n])"
  have "\<forall>(i, j) \<in> set ?pairs. i < length [0..<?n] \<and> j < length [0..<?n]" by auto
  from union_pairs_total [OF uf_inv_init this, of "map (\<lambda>c. set (members c)) grp"]
  obtain p where u: "union_pairs (map (\<lambda>c. set (members c)) grp) [0..<?n] ?pairs = Some p"
    and ip: "uf_inv p" and lp: "length p = ?n" by auto
  have "\<exists>gs. group_indices p [] [0..<?n] = Some gs \<and> (\<forall>(r, l) \<in> set gs. \<forall>i \<in> set l. i < ?n)"
    by (rule group_indices_total [OF ip]) (simp_all add: lp)
  then obtain gs where gi: "group_indices p [] [0..<?n] = Some gs"
    and b: "\<forall>(r, l) \<in> set gs. \<forall>i \<in> set l. i < ?n" by blast
  have "members_within (map (\<lambda>(r, indices). merge_group core grp indices) gs) grp"
    unfolding members_within_def
  proof
    fix c assume "c \<in> set (map (\<lambda>(r, indices). merge_group core grp indices) gs)"
    then obtain r l where rl: "(r, l) \<in> set gs" and c: "c = merge_group core grp l" by auto
    from b rl have "\<forall>i \<in> set l. i < ?n" by auto
    from merge_group_members [OF this] c
    show "set (members c) \<subseteq> (\<Union>c' \<in> set grp. set (members c'))" by simp
  qed
  with False u gi show ?thesis by (simp add: consolidate_group_def Let_def)
qed

lemma core_groups_within:
  "\<forall>(core, grp) \<in> set (core_groups smurf). set grp \<subseteq> set smurf"
proof -
  have "\<forall>(core, grp) \<in> set groups. set grp \<subseteq> S \<Longrightarrow> set ss \<subseteq> S \<Longrightarrow>
        \<forall>(core, grp) \<in> set (foldl (\<lambda>groups s.
              AList.update (core_key s)
                ((case map_of groups (core_key s) of None \<Rightarrow> [] | Some l \<Rightarrow> l) @ [s]) groups)
              groups ss). set grp \<subseteq> S" for groups ss S
  proof (induction ss arbitrary: groups)
    case Nil
    then show ?case by simp
  next
    case (Cons s ss)
    let ?old = "case map_of groups (core_key s) of None \<Rightarrow> [] | Some l \<Rightarrow> l"
    have old: "set ?old \<subseteq> S"
    proof (cases "map_of groups (core_key s)")
      case None
      then show ?thesis by simp
    next
      case (Some l)
      then have "(core_key s, l) \<in> set groups" by (rule map_of_SomeD)
      with Cons.prems(1) Some show ?thesis by auto
    qed
    have "\<forall>(core, grp) \<in> set (AList.update (core_key s) (?old @ [s]) groups). set grp \<subseteq> S"
    proof (clarify)
      fix core grp x assume m: "(core, grp) \<in> set (AList.update (core_key s) (?old @ [s]) groups)"
        and x: "x \<in> set grp"
      from update_values [OF m] have "grp = ?old @ [s] \<or> (core, grp) \<in> set groups" by auto
      then show "x \<in> S"
      proof
        assume "grp = ?old @ [s]"
        with x old Cons.prems(2) show ?thesis by auto
      next
        assume "(core, grp) \<in> set groups"
        with x Cons.prems(1) show ?thesis by auto
      qed
    qed
    moreover from Cons.prems(2) have "set ss \<subseteq> S" by simp
    ultimately show ?case using Cons.IH by simp
  qed
  from this [of "[]" "set smurf" smurf] show ?thesis by (simp add: core_groups_def)
qed

lemma consolidate_groups_total:
  assumes "\<forall>(core, grp) \<in> set groups. set grp \<subseteq> S"
  shows "\<exists>cs. consolidate_groups groups = Some cs
           \<and> (\<forall>c \<in> set cs. set (members c) \<subseteq> (\<Union>c' \<in> S. set (members c')))"
  using assms
proof (induction groups)
  case Nil
  then show ?case by simp
next
  case (Cons cg groups)
  obtain core grp where cg: "cg = (core, grp)" by (cases cg)
  from consolidate_group_total [of core grp] obtain cs where
    1: "consolidate_group core grp = Some cs" and 2: "members_within cs grp" by blast
  from Cons.prems cg have sub: "set grp \<subseteq> S" by simp
  from Cons.prems have "\<forall>(core, grp) \<in> set groups. set grp \<subseteq> S" by simp
  from Cons.IH [OF this] obtain others where
    3: "consolidate_groups groups = Some others"
    and 4: "\<forall>c \<in> set others. set (members c) \<subseteq> (\<Union>c' \<in> S. set (members c'))" by blast
  have "\<forall>c \<in> set cs. set (members c) \<subseteq> (\<Union>c' \<in> S. set (members c'))"
    using 2 sub unfolding members_within_def by blast
  with 1 3 4 show ?case by (auto simp: cg)
qed

lemma smurf_consolidation_total:
  "\<exists>out. smurf_consolidation cs = Some out \<and> members_within out cs"
proof -
  let ?smurf = "filter (\<lambda>c. cand_pattern_type c = ''smurfing'') cs"
  let ?non = "filter (\<lambda>c. cand_pattern_type c \<noteq> ''smurfing'') cs"
  show ?thesis
  proof (cases "?smurf = []")
    case True
    then show ?thesis by (simp add: smurf_consolidation_def members_within_def) blast
  next
    case False
    from consolidate_groups_total [OF core_groups_within [of ?smurf]] obtain out where
      1: "consolidate_groups (core_groups ?smurf) = Some out"
      and 2: "\<forall>c \<in> set out. set (members c) \<subseteq> (\<Union>c' \<in> set ?smurf. set (members c'))" by blast
    have "members_within (?non @ out) cs"
      unfolding members_within_def using 2 by auto
    with False 1 show ?thesis by (simp add: smurf_consolidation_def Let_def)
  qed
qed

section \<open>Arbitration invents no member\<close>

definition rings_within :: "ring list \<Rightarrow> account set \<Rightarrow> bool" where
  "rings_within rs U \<longleftrightarrow> (\<forall>r \<in> set rs. set (member_accounts r) \<subseteq> U)"

lemma accept_ring_within:
  assumes "rings_within (final_rings st) U" "set (members cand) \<subseteq> U"
  shows "rings_within (final_rings (accept_ring st cand)) U"
proof -
  have "set (take 15 (sorted_list_of_set (set (members cand)))) \<subseteq> set (members cand)"
    using set_take_subset [of 15 "sorted_list_of_set (set (members cand))"] by simp
  with assms show ?thesis
    by (auto simp: accept_ring_def Let_def rings_within_def)
qed

lemma merge_into_within:
  assumes w: "rings_within (final_rings st) U" and c: "set (members cand) \<subseteq> U"
  shows "rings_within (final_rings (merge_into st cand idx)) U"
proof -
  let ?t = "final_rings st ! idx"
  let ?cur = "set (member_accounts ?t)"
  let ?new = "set (members cand) - ?cur"
  let ?new' = "if pattern_type ?t \<noteq> ''cycle''
       then set (take (nat (max 0 (15 - int (card ?cur)))) (sorted_list_of_set ?new)) else ?new"
  let ?t' = "?t\<lparr>member_accounts := sorted_list_of_set (?cur \<union> ?new'),
             risk_score := max (risk_score ?t) (cand_risk_score cand)\<rparr>"
  have fr: "final_rings (merge_into st cand idx) = (final_rings st)[idx := ?t']"
    by (simp add: merge_into_def Let_def)
  show ?thesis
  proof (cases "idx < length (final_rings st)")
    case False
    then have "(final_rings st)[idx := ?t'] = final_rings st"
      by (intro list_update_beyond) simp
    with w fr show ?thesis by simp
  next
    case True
    with w have cur: "?cur \<subseteq> U" by (auto simp: rings_within_def)
    have "set (take k (sorted_list_of_set ?new)) \<subseteq> ?new" for k
      using set_take_subset [of k "sorted_list_of_set ?new"] by simp
    then have new: "?new' \<subseteq> U" using c by (auto split: if_splits)
    have fin: "finite (?cur \<union> ?new')" by (auto split: if_splits)
    have t': "set (member_accounts ?t') \<subseteq> U"
      using fin cur new by simp
    show ?thesis
      unfolding fr rings_within_def
    proof
      fix r assume "r \<in> set ((final_rings st)[idx := ?t'])"
      then have "r = ?t' \<or> r \<in> set (final_rings st)"
        using set_update_subset_insert [of "final_rings st" idx ?t'] by blast
      then show "set (member_accounts r) \<subseteq> U"
      proof
        assume "r \<in> set (final_rings st)"
        with w show ?thesis by (auto simp: rings_within_def)
      next
        assume "r = ?t'"
        with t' show ?thesis by blast
      qed
    qed
  qed
qed

lemma arbitrate_step_within:
  assumes w: "rings_within (final_rings st) U" and c: "set (members cand) \<subseteq> U"
  shows "rings_within (final_rings (arbitrate_step iter st cand)) U"
proof -
  have "arbitrate_step iter st cand = st
      \<or> (\<exists>idx. arbitrate_step iter st cand = merge_into st cand idx)
      \<or> arbitrate_step iter st cand = accept_ring st cand"
    by (auto simp: arbitrate_step_def Let_def split: option.splits)
  then show ?thesis
    using w accept_ring_within [OF w c] merge_into_within [OF w c] by metis
qed

lemma foldl_arbitrate_within:
  assumes "rings_within (final_rings st) U" "\<forall>c \<in> set cs. set (members c) \<subseteq> U"
  shows "rings_within (final_rings (foldl (arbitrate_step iter) st cs)) U"
  using assms
proof (induction cs arbitrary: st)
  case Nil
  then show ?case by simp
next
  case (Cons c cs)
  from Cons.prems have "rings_within (final_rings (arbitrate_step iter st c)) U"
    by (intro arbitrate_step_within) auto
  from Cons.IH [OF this] Cons.prems(2) show ?case by simp
qed

lemma assign_ring_ids_members:
  "r \<in> set (assign_ring_ids rs) \<Longrightarrow> \<exists>r' \<in> set rs. member_accounts r = member_accounts r'"
  by (auto simp: assign_ring_ids_def in_set_enumerate_eq)

lemma arbitrate_rings_within:
  "rings_within (arbitrate_rings iter cs) (\<Union>c \<in> set cs. set (members c))"
proof (cases "cs = []")
  case True
  then show ?thesis by (simp add: arbitrate_rings_def rings_within_def)
next
  case False
  let ?U = "\<Union>c \<in> set cs. set (members c)"
  let ?sorted = "sort_key (\<lambda>c. (- confidence_score c, TYPE_PRIORITY (cand_pattern_type c))) cs"
  let ?st = "foldl (arbitrate_step iter)
                   \<lparr>final_rings = [], used_nodes = {}, node_to_ring_idx = Map.empty\<rparr> ?sorted"
  have "rings_within (final_rings ?st) ?U"
    by (rule foldl_arbitrate_within) (auto simp: rings_within_def)
  then have "rings_within (sort_key (\<lambda>r. (- risk_score r, pattern_type r)) (final_rings ?st)) ?U"
    by (simp add: rings_within_def)
  then have "rings_within (assign_ring_ids (sort_key (\<lambda>r. (- risk_score r, pattern_type r)) (final_rings ?st))) ?U"
    unfolding rings_within_def
  proof (intro ballI)
    fix r
    assume a: "\<forall>r\<in>set (sort_key (\<lambda>r. (- risk_score r, pattern_type r)) (final_rings ?st)). set (member_accounts r) \<subseteq> ?U"
      and r: "r \<in> set (assign_ring_ids (sort_key (\<lambda>r. (- risk_score r, pattern_type r)) (final_rings ?st)))"
    from assign_ring_ids_members [OF r] obtain r' where
      "r' \<in> set (sort_key (\<lambda>r. (- risk_score r, pattern_type r)) (final_rings ?st))"
      "member_accounts r = member_accounts r'" by blast
    with a show "set (member_accounts r) \<subseteq> ?U" by auto
  qed
  with False show ?thesis by (simp add: arbitrate_rings_def Let_def)
qed

section \<open>Immune accounts after the cleanup\<close>

lemma immune_cleanup_fields [simp]:
  "G (immune_cleanup e) = G e" "immune_accounts (immune_cleanup e) = immune_accounts e"
  "fraud_rings (immune_cleanup e) = fraud_rings e" "suspicion_scores (immune_cleanup e) = suspicion_scores e"
  "high_degree_hubs (immune_cleanup e) = high_degree_hubs e"
  by (simp_all add: immune_cleanup_def)

lemma immune_cleanup_patterns:
  "M \<in> immune_accounts e \<Longrightarrow> account_patterns (immune_cleanup e) M \<subseteq> {''payroll'', ''merchant''}"
  by (auto simp: immune_cleanup_def immune_keep_def)

lemma immune_cleanup_candidates:
  assumes "M \<in> immune_accounts e" "c \<in> set (candidate_rings (immune_cleanup e))"
  shows "M \<notin> set (members c)"
  using assms by (auto simp: immune_cleanup_def clean_candidate_def Let_def split: if_splits)

lemma rings_within_mono: "rings_within rs U \<Longrightarrow> U \<subseteq> V \<Longrightarrow> rings_within rs V"
  unfolding rings_within_def by blast

lemma members_within_Union:
  "members_within out cs \<Longrightarrow> (\<Union>c \<in> set out. set (members c)) \<subseteq> (\<Union>c \<in> set cs. set (members c))"
  unfolding members_within_def by blast

lemma consolidate_rings_total:
  assumes "fraud_rings e = []"
  shows "\<exists>e2. consolidate_rings iter e = Some e2
     \<and> G e2 = G e \<and> immune_accounts e2 = immune_accounts e
     \<and> account_patterns e2 = account_patterns e \<and> suspicion_scores e2 = suspicion_scores e
     \<and> rings_within (fraud_rings e2) (\<Union>c \<in> set (candidate_rings e). set (members c))"
proof (cases "candidate_rings e = []")
  case True
  then have "consolidate_rings iter e = Some e" by (simp add: consolidate_rings_def)
  moreover have "rings_within (fraud_rings e) (\<Union>c \<in> set (candidate_rings e). set (members c))"
    using assms by (simp add: rings_within_def)
  ultimately show ?thesis by blast
next
  case False
  from smurf_consolidation_total [of "candidate_rings e"] obtain out where
    1: "smurf_consolidation (candidate_rings e) = Some out"
    and 2: "members_within out (candidate_rings e)" by blast
  let ?e2 = "e\<lparr>candidate_rings := out, fraud_rings := arbitrate_rings iter out\<rparr>"
  have 3: "consolidate_rings iter e = Some ?e2"
    using False 1 by (simp add: consolidate_rings_def)
  have "rings_within (arbitrate_rings iter out) (\<Union>c \<in> set (candidate_rings e). set (members c))"
    by (rule rings_within_mono [OF arbitrate_rings_within members_within_Union [OF 2]])
  then have 4: "rings_within (fraud_rings ?e2) (\<Union>c \<in> set (candidate_rings e). set (members c))"
    by simp
  have 5: "G ?e2 = G e" "immune_accounts ?e2 = immune_accounts e"
    "account_patterns ?e2 = account_patterns e" "suspicion_scores ?e2 = suspicion_scores e"
    by simp_all
  from 3 4 5 show ?thesis by blast
qed

lemma highest_group_subset: "highest_group gs P \<subseteq> P"
  by (induction gs) auto

lemma apply_pattern_hierarchy_fields [simp]:
  "G (apply_pattern_hierarchy e) = G e"
  "immune_accounts (apply_pattern_hierarchy e) = immune_accounts e"
  "fraud_rings (apply_pattern_hierarchy e) = fraud_rings e"
  "suspicion_scores (apply_pattern_hierarchy e) = suspicion_scores e"
  by (simp_all add: apply_pattern_hierarchy_def)

lemma apply_pattern_hierarchy_subset:
  "account_patterns (apply_pattern_hierarchy e) a \<subseteq> account_patterns e a"
  using highest_group_subset by (auto simp: apply_pattern_hierarchy_def)

lemma isolation_step_patterns:
  "snd (isolation_step g st node) a \<subseteq> insert ''isolation_cluster'' (snd st a)"
  by (auto simp: isolation_step_def Let_def)

lemma isolation_pass_patterns:
  "snd (isolation_pass g st ns) a \<subseteq> insert ''isolation_cluster'' (snd st a)"
proof (induction ns arbitrary: st)
  case Nil
  then show ?case by (auto simp: isolation_pass_def)
next
  case (Cons n ns)
  have "snd (isolation_pass g st (n # ns)) a = snd (isolation_pass g (isolation_step g st n) ns) a"
    by (simp add: isolation_pass_def)
  also have "\<dots> \<subseteq> insert ''isolation_cluster'' (snd (isolation_step g st n) a)" by (rule Cons.IH)
  also have "\<dots> \<subseteq> insert ''isolation_cluster'' (snd st a)"
    using isolation_step_patterns [of g st n a] by auto
  finally show ?case .
qed

lemma calculate_patterns:
  "account_patterns (calculate_suspicion_scores a e) n \<subseteq> insert ''isolation_cluster'' (account_patterns e n)"
proof (cases "G e")
  case None
  then show ?thesis by (auto simp: calculate_suspicion_scores_def)
next
  case (Some g)
  show ?thesis
  proof (cases "nodes g = []")
    case True
    with Some show ?thesis by (auto simp: calculate_suspicion_scores_def)
  next
    case False
    show ?thesis
      unfolding calculate_suspicion_scores_eq [OF Some False] second_pass_state_def
      using isolation_pass_patterns [of g "(first_pass e a (nodes g), account_patterns e)" "nodes g" n]
      by simp
  qed
qed

lemma calculate_fields [simp]:
  "fraud_rings (calculate_suspicion_scores a e) = fraud_rings e"
  "immune_accounts (calculate_suspicion_scores a e) = immune_accounts e"
  by (simp_all add: calculate_suspicion_scores_def Let_def split: option.splits)

lemma suppressed_immune:
  assumes "node \<in> immune_accounts e" "pats node \<inter> STRONG_FRAUD_PATTERNS = {}"
  shows "suppressed_score e pats pre node = 0"
  using assms by (simp add: suppressed_score_def Let_def)

lemma distinct_foldl_update:
  "distinct (map fst d0) \<Longrightarrow> distinct (map fst (foldl (\<lambda>d n. AList.update n (f n) d) d0 ns))"
  by (induction ns arbitrary: d0) (simp_all add: distinct_update)

lemma stored_entry:
  assumes "suspicion_scores e = []" "(k, v) \<in> set (suspicion_scores (calculate_suspicion_scores a e))"
  shows "\<exists>g. G e = Some g \<and> k \<in> set (nodes g)
     \<and> v = suppressed_score e (snd (second_pass_state a e g)) (fst (second_pass_state a e g)) k"
proof (cases "G e")
  case None
  with assms show ?thesis by (simp add: calculate_suspicion_scores_def)
next
  case (Some g)
  show ?thesis
  proof (cases "nodes g = []")
    case True
    with Some assms show ?thesis by (simp add: calculate_suspicion_scores_def)
  next
    case False
    let ?f = "\<lambda>node. suppressed_score e (snd (second_pass_state a e g)) (fst (second_pass_state a e g)) node"
    let ?d = "foldl (\<lambda>d node. AList.update node (?f node) d) (suspicion_scores e) (nodes g)"
    from assms(2) have m: "(k, v) \<in> set ?d"
      unfolding calculate_suspicion_scores_eq [OF Some False] by simp
    have "distinct (map fst ?d)" by (rule distinct_foldl_update) (simp add: assms(1))
    with m have "map_of ?d k = Some v" by simp
    then have "k \<in> set (nodes g) \<and> v = ?f k"
      by (auto simp: map_of_foldl_update assms(1) split: if_splits)
    with Some show ?thesis by simp
  qed
qed

text \<open>
  C2, amended: an immune account (so a merchant that took part in a validated 3-cycle
  too) leaves every candidate ring in the cleanup, is in no fraud ring, keeps none of its
  labels but \<^verbatim>\<open>payroll\<close> and \<^verbatim>\<open>merchant\<close> (the scoring may add \<^verbatim>\<open>isolation_cluster\<close>), is
  stored with the score 0 and is not reported. The later stages return.
\<close>

theorem immune_account_is_suppressed:
  assumes M: "M \<in> immune_accounts e" and fr: "fraud_rings e = []" and sc: "suspicion_scores e = []"
  shows "\<exists>e'. run_after_detection anomaly iter e = Some e'
     \<and> account_patterns e' M \<subseteq> {''payroll'', ''merchant'', ''isolation_cluster''}
     \<and> ''cycle_length_3'' \<notin> account_patterns e' M
     \<and> (\<forall>s. (M, s) \<in> set (suspicion_scores e') \<longrightarrow> s = 0)
     \<and> (\<forall>c \<in> set (candidate_rings (immune_cleanup e)). M \<notin> set (members c))
     \<and> (\<forall>r \<in> set (fraud_rings e'). M \<notin> set (member_accounts r))
     \<and> (\<forall>x \<in> set (suspicious_accounts e'). account_id x \<noteq> M)"
proof -
  let ?e1 = "immune_cleanup e"
  from fr have "fraud_rings ?e1 = []" by simp
  from consolidate_rings_total [OF this, of iter] obtain e2 where
    c: "consolidate_rings iter ?e1 = Some e2" and G2: "G e2 = G e"
    and i2: "immune_accounts e2 = immune_accounts e"
    and p2: "account_patterns e2 = account_patterns ?e1"
    and s2: "suspicion_scores e2 = suspicion_scores e"
    and w: "rings_within (fraud_rings e2) (\<Union>c \<in> set (candidate_rings ?e1). set (members c))"
    by auto
  let ?e3 = "apply_pattern_hierarchy e2"
  let ?e' = "calculate_suspicion_scores anomaly ?e3"
  have run: "run_after_detection anomaly iter e = Some ?e'"
    by (simp add: run_after_detection_def c)
  have p3: "account_patterns ?e3 M \<subseteq> {''payroll'', ''merchant''}"
    using apply_pattern_hierarchy_subset [of e2 M] immune_cleanup_patterns [OF M] p2 by auto
  have p': "account_patterns ?e' M \<subseteq> {''payroll'', ''merchant'', ''isolation_cluster''}"
    using calculate_patterns [of anomaly ?e3 M] p3 by auto
  then have no3: "''cycle_length_3'' \<notin> account_patterns ?e' M" by auto
  have cands: "\<forall>c \<in> set (candidate_rings ?e1). M \<notin> set (members c)"
    using immune_cleanup_candidates [OF M] by blast
  have rings: "\<forall>r \<in> set (fraud_rings ?e'). M \<notin> set (member_accounts r)"
    using w cands unfolding rings_within_def by auto
  have zero: "s = 0" if "(M, s) \<in> set (suspicion_scores ?e')" for s
  proof -
    have "suspicion_scores ?e3 = []" using s2 sc by simp
    from stored_entry [OF this that] obtain g where g: "G ?e3 = Some g"
      and s: "s = suppressed_score ?e3 (snd (second_pass_state anomaly ?e3 g))
                 (fst (second_pass_state anomaly ?e3 g)) M"
      by blast
    have "snd (second_pass_state anomaly ?e3 g) M \<subseteq> insert ''isolation_cluster'' (account_patterns ?e3 M)"
      unfolding second_pass_state_def
      using isolation_pass_patterns [of g "(first_pass ?e3 anomaly (nodes g), account_patterns ?e3)" "nodes g" M]
      by simp
    with p3 have "snd (second_pass_state anomaly ?e3 g) M \<inter> STRONG_FRAUD_PATTERNS = {}"
      by (auto simp: STRONG_FRAUD_PATTERNS_def)
    moreover have "M \<in> immune_accounts ?e3" using M i2 by simp
    ultimately show ?thesis unfolding s by (rule suppressed_immune [rotated])
  qed
  have rep: "\<forall>x \<in> set (suspicious_accounts ?e'). account_id x \<noteq> M"
  proof
    fix x assume "x \<in> set (suspicious_accounts ?e')"
    then obtain acc s where m: "(acc, s) \<in> set (suspicion_scores ?e')" and pos: "0 < s"
      and x: "x = suspicious_entry ?e' acc s" by (rule suspicious_entry_of)
    show "account_id x \<noteq> M"
    proof
      assume "account_id x = M"
      with x have "acc = M" by (simp add: suspicious_entry_def)
      with m zero pos show False by auto
    qed
  qed
  from run p' no3 zero cands rings rep show ?thesis by blast
qed

definition immunity_step :: "graph \<Rightarrow> engine \<Rightarrow> account \<Rightarrow> engine" where
  "immunity_step g e node =
     (case immunity_of g node of
        None \<Rightarrow> e
      | Some kind \<Rightarrow>
          e\<lparr>immune_accounts := insert node (immune_accounts e),
            account_patterns := (account_patterns e)(node := insert kind (account_patterns e node))\<rparr>)"

lemma detect_business_immunity_alt:
  "G e = Some g \<Longrightarrow> detect_business_immunity e = foldl (immunity_step g) e (nodes g)"
  by (simp add: detect_business_immunity_def immunity_step_def [abs_def])

lemma immunity_step_mono:
  "immune_accounts e \<subseteq> immune_accounts (immunity_step g e n)"
  "account_patterns e a \<subseteq> account_patterns (immunity_step g e n) a"
  by (auto simp: immunity_step_def split: option.splits)

lemma foldl_immunity_mono:
  "immune_accounts e \<subseteq> immune_accounts (foldl (immunity_step g) e ns)
   \<and> account_patterns e a \<subseteq> account_patterns (foldl (immunity_step g) e ns) a"
proof (induction ns arbitrary: e)
  case Nil
  show ?case by simp
next
  case (Cons n ns)
  from Cons.IH [of "immunity_step g e n"]
    immunity_step_mono(1) [where e = e and g = g and n = n]
    immunity_step_mono(2) [where e = e and g = g and n = n and a = a]
  show ?case by auto
qed

lemma foldl_immunity_detects:
  assumes "M \<in> set ns" "immunity_of g M = Some kind"
  shows "M \<in> immune_accounts (foldl (immunity_step g) e ns)
       \<and> kind \<in> account_patterns (foldl (immunity_step g) e ns) M"
  using assms(1)
proof (induction ns arbitrary: e)
  case Nil
  then show ?case by simp
next
  case (Cons n ns)
  show ?case
  proof (cases "n = M")
    case True
    have "M \<in> immune_accounts (immunity_step g e M)" "kind \<in> account_patterns (immunity_step g e M) M"
      using assms(2) by (simp_all add: immunity_step_def)
    with True foldl_immunity_mono [of "immunity_step g e M" g ns M] show ?thesis by auto
  next
    case False
    with Cons.prems have "M \<in> set ns" by simp
    from Cons.IH [OF this] show ?thesis by simp
  qed
qed

lemma immune_condition_detected:
  assumes "G e = Some g" "M \<in> set (nodes g)" "immunity_of g M = Some kind"
  shows "M \<in> immune_accounts (detect_business_immunity e)
       \<and> kind \<in> account_patterns (detect_business_immunity e) M"
  unfolding detect_business_immunity_alt [OF assms(1)]
  by (rule foldl_immunity_detects [OF assms(2,3)])

text \<open>The merchant of \<open>merchant_graph\<close>, through the stages after detection.\<close>

definition merchant_scored :: engine where
  "merchant_scored =
     calculate_suspicion_scores merchant_anomaly
       (apply_pattern_hierarchy (immune_cleanup merchant_engine))"

lemma merchant_run:
  "run_after_detection merchant_anomaly iter merchant_engine = Some merchant_scored"
  by (simp add: run_after_detection_def consolidate_rings_def immune_cleanup_def
      merchant_engine_def fresh_engine_def merchant_scored_def)

lemma merchant_nodes:
  "nodes merchant_graph =
     [''S01'', ''M'', ''S02'', ''S03'', ''S04'', ''S05'', ''S06'', ''S07'', ''S08'', ''S09'',
      ''S10'', ''A'', ''B'']"
  by code_simp

lemma merchant_neighbors:
  "map (\<lambda>n. remdups (predecessors merchant_graph n @ successors merchant_graph n))
     [''S01'', ''M'', ''S02'', ''S03'', ''S04'', ''S05'', ''S06'', ''S07'', ''S08'', ''S09'',
      ''S10'', ''A'', ''B''] =
   [[''M''],
    [''S01'', ''S02'', ''S03'', ''S04'', ''S05'', ''S06'', ''S07'', ''S08'', ''S09'', ''S10'',
     ''B'', ''A''],
    [''M''], [''M''], [''M''], [''M''], [''M''], [''M''], [''M''], [''M''], [''M''],
    [''M'', ''B''], [''A'', ''M'']]"
  by code_simp

lemma merchant_prelim:
  "map (preliminary_score (apply_pattern_hierarchy (immune_cleanup merchant_engine)) merchant_anomaly)
     [''S01'', ''M'', ''S02'', ''S03'', ''S04'', ''S05'', ''S06'', ''S07'', ''S08'', ''S09'',
      ''S10'', ''A'', ''B''] =
   [0, 15, 0, 0, 0, 0, 0, 0, 0, 0, 0, 31, 32]"
  by code_simp

lemma merchant_hierarchy_patterns:
  "account_patterns (apply_pattern_hierarchy (immune_cleanup merchant_engine)) ''M'' = {''merchant''}"
  "account_patterns (apply_pattern_hierarchy (immune_cleanup merchant_engine)) ''A'' = {''cycle_length_3''}"
  by code_simp+

lemma merchant_fields:
  "G (apply_pattern_hierarchy (immune_cleanup merchant_engine)) = Some merchant_graph"
  "immune_accounts (apply_pattern_hierarchy (immune_cleanup merchant_engine)) = {''M''}"
  "high_degree_hubs (apply_pattern_hierarchy (immune_cleanup merchant_engine)) = {}"
  "suspicion_scores (apply_pattern_hierarchy (immune_cleanup merchant_engine)) = []"
  "fraud_rings (apply_pattern_hierarchy (immune_cleanup merchant_engine)) = []"
  by (simp_all add: apply_pattern_hierarchy_def immune_cleanup_def merchant_engine_def fresh_engine_def)

lemma merchant_second_pass:
  "second_pass_state merchant_anomaly (apply_pattern_hierarchy (immune_cleanup merchant_engine)) merchant_graph =
     ((first_pass (apply_pattern_hierarchy (immune_cleanup merchant_engine)) merchant_anomaly (nodes merchant_graph))
        (''M'' \<mapsto> 23),
      (account_patterns (apply_pattern_hierarchy (immune_cleanup merchant_engine)))
        (''M'' := insert ''isolation_cluster''
           (account_patterns (apply_pattern_hierarchy (immune_cleanup merchant_engine)) ''M'')))"
  using merchant_prelim merchant_neighbors
  by (simp add: second_pass_state_def isolation_pass_def merchant_nodes isolation_step_eq
      get0_first_pass get0_upd)

lemma merchant_thresholds: "map apply_flag_threshold [31, 32] = [31, 32]"
  by code_simp

lemma merchant_result:
  "account_patterns merchant_scored ''M'' = {''isolation_cluster'', ''merchant''}"
  "map_of (suspicion_scores merchant_scored) ''M'' = Some 0"
  "map_of (suspicion_scores merchant_scored) ''A'' = Some 31"
  "fraud_rings merchant_scored = []"
proof -
  note eq = calculate_suspicion_scores_eq [of "apply_pattern_hierarchy (immune_cleanup merchant_engine)"
      merchant_graph merchant_anomaly, OF merchant_fields(1), unfolded merchant_nodes, simplified,
      folded merchant_scored_def]
  show "account_patterns merchant_scored ''M'' = {''isolation_cluster'', ''merchant''}"
    by (simp add: eq merchant_second_pass merchant_hierarchy_patterns)
  show "fraud_rings merchant_scored = []"
    by (simp add: merchant_scored_def merchant_engine_def fresh_engine_def)
  have M: "''M'' \<in> set (nodes merchant_graph)" and A: "''A'' \<in> set (nodes merchant_graph)"
    by (simp_all add: merchant_nodes)
  show "map_of (suspicion_scores merchant_scored) ''M'' = Some 0"
    unfolding merchant_scored_def stored_score [OF merchant_fields(1) M]
    by (simp add: merchant_second_pass merchant_hierarchy_patterns suppressed_score_def
        merchant_fields STRONG_FRAUD_PATTERNS_def)
  show "map_of (suspicion_scores merchant_scored) ''A'' = Some 31"
    unfolding merchant_scored_def stored_score [OF merchant_fields(1) A]
    using merchant_prelim merchant_thresholds
    by (simp add: merchant_second_pass merchant_hierarchy_patterns suppressed_score_def
        merchant_fields STRONG_FRAUD_PATTERNS_def get0_upd get0_first_pass merchant_nodes)
qed

theorem immune_account_is_suppressed_witness:
  "''M'' \<in> immune_accounts merchant_engine \<and> fraud_rings merchant_engine = []
   \<and> suspicion_scores merchant_engine = []
   \<and> (case run_after_detection merchant_anomaly sorted_list_of_set merchant_engine of
         None \<Rightarrow> False
       | Some e' \<Rightarrow>
           ''cycle_length_3'' \<notin> account_patterns e' ''M''
           \<and> map_of (suspicion_scores e') ''M'' = Some 0
           \<and> list_all (\<lambda>r. ''M'' \<notin> set (member_accounts r)) (fraud_rings e')
           \<and> list_all (\<lambda>x. account_id x \<noteq> ''M'') (suspicious_accounts e'))"
proof -
  have h: "''M'' \<in> immune_accounts merchant_engine" "fraud_rings merchant_engine = []"
    "suspicion_scores merchant_engine = []"
    by (simp_all add: merchant_engine_def fresh_engine_def)
  from immune_account_is_suppressed [OF h, of merchant_anomaly sorted_list_of_set]
  show ?thesis
    using h merchant_result(2) by (auto simp: merchant_run list_all_iff)
qed

text \<open>
  C2, as the spec states it, fails on \<open>merchant_graph\<close>: \<open>M\<close> meets the merchant test of
  \<^verbatim>\<open>_detect_business_immunity\<close>, the cycle \<open>A, B, M\<close> passes \<^verbatim>\<open>_validate_cycle_edges\<close> and
  \<open>M\<close> carries \<^verbatim>\<open>cycle_length_3\<close> after detection; at the end \<open>M\<close> has lost that label,
  its score is 0 and there is no ring.
\<close>

theorem merchant_in_cycle_counterexample:
  "immunity_of merchant_graph ''M'' = Some ''merchant''
   \<and> ''M'' \<in> immune_accounts merchant_engine
   \<and> map_sum id (map_option cyc_nodes) (validate_cycle_edges merchant_graph 2 [''A'', ''B'', ''M''])
       = Inr (Some [''A'', ''B'', ''M''])
   \<and> ''cycle_length_3'' \<in> account_patterns merchant_engine ''M''
   \<and> map_option (\<lambda>e'. (account_patterns e' ''M'', map_of (suspicion_scores e') ''M'',
                       map_of (suspicion_scores e') ''A'', fraud_rings e'))
       (run_after_detection merchant_anomaly sorted_list_of_set merchant_engine)
     = Some ({''isolation_cluster'', ''merchant''}, Some 0, Some 31, [])"
proof -
  have "immunity_of merchant_graph ''M'' = Some ''merchant''" by code_simp
  moreover have "map_sum id (map_option cyc_nodes)
      (validate_cycle_edges merchant_graph 2 [''A'', ''B'', ''M'']) = Inr (Some [''A'', ''B'', ''M''])"
    by code_simp
  moreover have "''M'' \<in> immune_accounts merchant_engine"
    "''cycle_length_3'' \<in> account_patterns merchant_engine ''M''"
    by (simp_all add: merchant_engine_def fresh_engine_def merchant_patterns_def)
  ultimately show ?thesis by (simp add: merchant_run merchant_result)
qed

section \<open>The boundaries of the cycle constraints\<close>

lemma check_cycle_constraints_accepts:
  "(\<exists>v. check_cycle_constraints g ext_limit path edges = Inr (Some v)) \<longleftrightarrow>
     edges \<noteq> [] \<and> temporal_ok edges \<and> mean_amount edges \<noteq> 0 \<and> uniform_ok edges
     \<and> flow_ok edges \<and> ext_ok g ext_limit path edges"
  by (simp add: check_cycle_constraints_def)

lemma temporal_ok_iff:
  "temporal_ok edges \<longleftrightarrow>
     Max (set (map timestamp edges)) - Min (set (map timestamp edges)) \<le> 72 * 3600"
  by (simp add: temporal_ok_def HOURS_72_def Let_def not_less)

lemma amounts_bounds:
  assumes "edges \<noteq> []" "a \<in> set (map amount edges)"
  shows "Min (set (map amount edges)) \<le> a" "a \<le> Max (set (map amount edges))"
  using assms by (auto intro: Min_le Max_ge)

lemma flow_ok_iff:
  assumes "edges \<noteq> []"
  shows "flow_ok edges \<longleftrightarrow>
     Max (set (map amount edges)) > 0
     \<and> 70 / 100 \<le> Min (set (map amount edges)) / Max (set (map amount edges))"
  by (auto simp: flow_ok_def flow_ratio_def Let_def not_less)

text \<open>
  Amounts within 15 percent of a positive mean have a ratio of at least 17/23: the
  flow test never rejects what the uniformity test has let through.
\<close>

lemma uniform_implies_flow:
  assumes ne: "edges \<noteq> []" and m: "mean_amount edges > 0" and u: "uniform_ok edges"
  shows "flow_ok edges"
proof -
  let ?A = "set (map amount edges)"
  let ?m = "mean_amount edges"
  have fin: "finite ?A" and nonempty: "?A \<noteq> {}" using ne by auto
  have b: "85 / 100 * ?m \<le> a \<and> a \<le> 115 / 100 * ?m" if "a \<in> ?A" for a
  proof -
    from u that have "\<bar>a - ?m\<bar> / ?m \<le> 15 / 100" by (auto simp: uniform_ok_def list_all_iff)
    with m have "\<bar>a - ?m\<bar> \<le> 15 / 100 * ?m" by (simp add: pos_divide_le_eq)
    then show ?thesis by linarith
  qed
  have "Min ?A \<in> ?A" "Max ?A \<in> ?A" using fin nonempty by (auto intro: Min_in Max_in)
  with b have lo: "85 / 100 * ?m \<le> Min ?A" and hi: "Max ?A \<le> 115 / 100 * ?m"
    and lo': "85 / 100 * ?m \<le> Max ?A" by auto
  have "0 < 85 / 100 * ?m" using m by simp
  with lo' have pos: "Max ?A > 0" by linarith
  have "70 / 100 * Max ?A \<le> 70 / 100 * (115 / 100 * ?m)" using hi by linarith
  also have "\<dots> \<le> 85 / 100 * ?m" using m by linarith
  also have "\<dots> \<le> Min ?A" by (rule lo)
  finally have "70 / 100 * Max ?A \<le> Min ?A" .
  with pos have "70 / 100 \<le> Min ?A / Max ?A" by (simp only: pos_le_divide_eq)
  with pos show ?thesis by (simp only: flow_ok_iff [OF ne] simp_thms)
qed



text \<open>
  A selection whose ratio is exactly 0.70 passes the flow test, but the check returns
  \<open>None\<close> for it all the same: its amounts are positive and not within 15 percent of
  their mean.
\<close>

lemma sum_list_pos_real:
  "xs \<noteq> [] \<Longrightarrow> \<forall>x \<in> set xs. 0 < (x::real) \<Longrightarrow> 0 < sum_list xs"
proof (induction xs)
  case Nil
  then show ?case by simp
next
  case (Cons x xs)
  show ?case
  proof (cases "xs = []")
    case True
    with Cons.prems show ?thesis by simp
  next
    case False
    with Cons have "0 < sum_list xs" by simp
    with Cons.prems show ?thesis by simp
  qed
qed

lemma flow_boundary_is_rejected:
  assumes ne: "edges \<noteq> []"
    and r: "Min (set (map amount edges)) / Max (set (map amount edges)) = 70 / 100"
  shows "check_cycle_constraints g ext_limit path edges = Inr None"
proof -
  let ?A = "set (map amount edges)"
  have fin: "finite ?A" and nonempty: "?A \<noteq> {}" using ne by auto
  have "Max ?A \<noteq> 0" using r by auto
  have le: "Min ?A \<le> Max ?A" using ne by (intro Min.coboundedI) (auto intro: Max_in)
  have pos: "Max ?A > 0"
  proof (rule ccontr)
    assume "\<not> Max ?A > 0"
    with \<open>Max ?A \<noteq> 0\<close> have neg: "Max ?A < 0" by simp
    from r neg have "Min ?A = 70 / 100 * Max ?A" by (simp add: field_simps)
    with neg le show False by simp
  qed
  with r have min: "Min ?A = 70 / 100 * Max ?A" by (simp add: field_simps)
  with pos have minpos: "0 < Min ?A" by simp
  have "\<forall>a \<in> set (map amount edges). 0 < a"
    using minpos fin by (auto intro: less_le_trans [OF _ Min_le])
  with ne have "0 < sum_list (map amount edges)" by (intro sum_list_pos_real) auto
  with ne have m: "0 < mean_amount edges" by (simp add: mean_amount_def)
  have "\<not> uniform_ok edges"
  proof
    assume u: "uniform_ok edges"
    have b: "85 / 100 * mean_amount edges \<le> a \<and> a \<le> 115 / 100 * mean_amount edges"
      if "a \<in> ?A" for a
    proof -
      from u that have "\<bar>a - mean_amount edges\<bar> / mean_amount edges \<le> 15 / 100"
        by (auto simp: uniform_ok_def list_all_iff)
      with m have "\<bar>a - mean_amount edges\<bar> \<le> 15 / 100 * mean_amount edges"
        by (simp add: pos_divide_le_eq)
      then show ?thesis by linarith
    qed
    have "Min ?A \<in> ?A" "Max ?A \<in> ?A" using fin nonempty by (auto intro: Min_in Max_in)
    with b have "85 / 100 * mean_amount edges \<le> Min ?A" "Max ?A \<le> 115 / 100 * mean_amount edges"
      by auto
    with min m show False by linarith
  qed
  with ne show ?thesis by (simp add: check_cycle_constraints_def)
qed

section \<open>Smurfing candidates that become rings\<close>

lemma smurf_sets_finite [simp]:
  "finite (hub_set immune cand)" "finite (inbound_accounts immune cand)"
  "finite (outbound_accounts immune cand)"
  by (simp_all add: hub_set_def inbound_accounts_def outbound_accounts_def)

definition smurf_keep :: "account set \<Rightarrow> smurf_candidate \<Rightarrow> account set" where
  "smurf_keep immune cand =
     (let keep1 = hub_set immune cand
                  \<union> set (take (MAX_SMURF_RING_SIZE - card (hub_set immune cand))
                            (sorted_list_of_set (inbound_accounts immune cand)))
      in keep1 \<union> set (take (MAX_SMURF_RING_SIZE - card keep1)
                         (sorted_list_of_set (outbound_accounts immune cand))))"

lemma all_members_eq:
  "all_members immune cand =
     sorted_list_of_set
       (if card (hub_set immune cand \<union> inbound_accounts immune cand \<union> outbound_accounts immune cand)
             > MAX_SMURF_RING_SIZE
        then smurf_keep immune cand
        else hub_set immune cand \<union> inbound_accounts immune cand \<union> outbound_accounts immune cand)"
  by (simp add: all_members_def smurf_keep_def Let_def)

lemma card_Un_take: "finite A \<Longrightarrow> card (A \<union> set (take k xs)) \<le> card A + k"
proof -
  assume "finite A"
  have "card (A \<union> set (take k xs)) \<le> card A + card (set (take k xs))" by (rule card_Un_le)
  also have "card (set (take k xs)) \<le> length (take k xs)" by (rule card_length)
  also have "\<dots> \<le> k" by simp
  finally show ?thesis by simp
qed

lemma smurf_keep_finite [simp]: "finite (smurf_keep immune cand)"
  by (simp add: smurf_keep_def Let_def)

lemma hub_set_card: "card (hub_set immune cand) \<le> 1"
  by (simp add: hub_set_def)

lemma smurf_keep_card: "card (smurf_keep immune cand) \<le> MAX_SMURF_RING_SIZE"
proof -
  let ?h = "hub_set immune cand"
  let ?k1 = "?h \<union> set (take (MAX_SMURF_RING_SIZE - card ?h)
                            (sorted_list_of_set (inbound_accounts immune cand)))"
  have "card ?k1 \<le> card ?h + (MAX_SMURF_RING_SIZE - card ?h)" by (rule card_Un_take) simp
  with hub_set_card [of immune cand] have k1: "card ?k1 \<le> MAX_SMURF_RING_SIZE"
    by (simp add: MAX_SMURF_RING_SIZE_def)
  have "card (?k1 \<union> set (take (MAX_SMURF_RING_SIZE - card ?k1)
                         (sorted_list_of_set (outbound_accounts immune cand))))
        \<le> card ?k1 + (MAX_SMURF_RING_SIZE - card ?k1)" by (rule card_Un_take) simp
  with k1 show ?thesis by (simp add: smurf_keep_def Let_def)
qed

lemma smurf_keep_subset:
  "smurf_keep immune cand \<subseteq>
     hub_set immune cand \<union> inbound_accounts immune cand \<union> outbound_accounts immune cand"
proof -
  have "set (take k (sorted_list_of_set (inbound_accounts immune cand))) \<subseteq> inbound_accounts immune cand" for k
    using set_take_subset [of k "sorted_list_of_set (inbound_accounts immune cand)"] by simp
  moreover have "set (take k (sorted_list_of_set (outbound_accounts immune cand))) \<subseteq> outbound_accounts immune cand" for k
    using set_take_subset [of k "sorted_list_of_set (outbound_accounts immune cand)"] by simp
  ultimately show ?thesis unfolding smurf_keep_def Let_def by blast
qed

lemma all_members_props:
  "sorted (all_members immune cand)" "distinct (all_members immune cand)"
  "length (all_members immune cand) \<le> MAX_SMURF_RING_SIZE"
  "hub_set immune cand \<subseteq> set (all_members immune cand)"
  "set (all_members immune cand) \<subseteq>
     hub_set immune cand \<union> inbound_accounts immune cand \<union> outbound_accounts immune cand"
proof -
  let ?all = "hub_set immune cand \<union> inbound_accounts immune cand \<union> outbound_accounts immune cand"
  show "sorted (all_members immune cand)" "distinct (all_members immune cand)"
    by (simp_all add: all_members_eq)
  show "length (all_members immune cand) \<le> MAX_SMURF_RING_SIZE"
    using smurf_keep_card [of immune cand] by (simp add: all_members_eq)
  show "hub_set immune cand \<subseteq> set (all_members immune cand)"
    by (auto simp: all_members_eq smurf_keep_def Let_def)
  show "set (all_members immune cand) \<subseteq> ?all"
    using smurf_keep_subset [of immune cand] by (auto simp: all_members_eq)
qed

lemma incoming_sum_empty: "sc_in_txns cand = [] \<Longrightarrow> incoming_sum cand = 0"
  by (simp add: incoming_sum_def)

lemma score_smurf_candidate_eq:
  "score_smurf_candidate g (seen_keys, e) cand =
     (if incoming_sum cand > 0 \<and> combined_score (immune_accounts e) cand \<ge> 4
         \<and> length (all_members (immune_accounts e) cand) \<ge> 4
         \<and> all_members (immune_accounts e) cand \<notin> seen_keys
      then (insert (all_members (immune_accounts e) cand) seen_keys,
            e\<lparr>candidate_rings := candidate_rings e @ [smurf_ring g (immune_accounts e) cand],
              account_patterns := smurf_labels (immune_accounts e) cand (account_patterns e)\<rparr>)
      else (seen_keys, e))"
  using incoming_sum_empty [of cand]
  by (auto simp: score_smurf_candidate_def Let_def not_le not_less)

lemma smurf_ring_members [simp]: "members (smurf_ring g immune cand) = all_members immune cand"
  by (simp add: smurf_ring_def Let_def)

lemma score_smurf_candidate_immune [simp]:
  "immune_accounts (snd (score_smurf_candidate g st cand)) = immune_accounts (snd st)"
  by (cases st) (simp add: score_smurf_candidate_eq)

lemma smurf_dedup_invariant:
  assumes "candidate_rings (snd st) = old @ new" "distinct (map members new)"
    "fst st = set (map members new)"
  shows "\<exists>new'. candidate_rings (snd (foldl (score_smurf_candidate g) st cands)) = old @ new'
           \<and> distinct (map members new')
           \<and> fst (foldl (score_smurf_candidate g) st cands) = set (map members new')"
  using assms
proof (induction cands arbitrary: st new)
  case Nil
  then show ?case by simp
next
  case (Cons c cands)
  obtain seen_keys e where st: "st = (seen_keys, e)" by (cases st)
  let ?st' = "score_smurf_candidate g st c"
  have "\<exists>new1. candidate_rings (snd ?st') = old @ new1 \<and> distinct (map members new1)
          \<and> fst ?st' = set (map members new1)"
  proof (cases "?st' = st")
    case True
    with Cons.prems show ?thesis by auto
  next
    case False
    then have 1: "all_members (immune_accounts e) c \<notin> seen_keys"
      and 2: "?st' = (insert (all_members (immune_accounts e) c) seen_keys,
            e\<lparr>candidate_rings := candidate_rings e @ [smurf_ring g (immune_accounts e) c],
              account_patterns := smurf_labels (immune_accounts e) c (account_patterns e)\<rparr>)"
      unfolding st score_smurf_candidate_eq by (auto split: if_splits)
    let ?new1 = "new @ [smurf_ring g (immune_accounts e) c]"
    from Cons.prems st 1 2 have "candidate_rings (snd ?st') = old @ ?new1"
      "distinct (map members ?new1)" "fst ?st' = set (map members ?new1)"
      by auto
    then show ?thesis by blast
  qed
  then obtain new1 where "candidate_rings (snd ?st') = old @ new1" "distinct (map members new1)"
    "fst ?st' = set (map members new1)" by blast
  from Cons.IH [OF this] show ?case by simp
qed

lemma score_smurf_candidates_dedup:
  "\<exists>new. candidate_rings (score_smurf_candidates g e) = candidate_rings e @ new
         \<and> distinct (map members new)"
  using smurf_dedup_invariant [of "({}, e)" "candidate_rings e" "[]" g "smurf_candidates e"]
  by (auto simp: score_smurf_candidates_def)

lemma hub_extract:
  "extract_smurf_candidates zero_graph = [hub_candidate 0 100]"
  "extract_smurf_candidates paid_graph = [hub_candidate 100 400]"
  by code_simp+

lemma hub_members:
  "all_members {} (hub_candidate a b) = [''H'', ''P1'', ''P2'', ''P3'', ''P4'', ''P5'', ''Q'']"
  by code_simp

lemma hub_scores:
  "conc_score (hub_candidate a b) = 1" "hold_score (hub_candidate a b) = 1"
  "size_score {} (hub_candidate a b) = 1"
  by code_simp+

lemma hub_sums:
  "incoming_sum (hub_candidate a b) = 5 * a" "outgoing_sum (hub_candidate a b) = b"
  by (simp_all add: incoming_sum_def outgoing_sum_def hub_candidate_def)

lemma hub_cv: "cv_score (hub_candidate a b) = 1"
  by (simp add: cv_score_def coefficient_of_variation_def hub_candidate_def Let_def)

lemma hub_flow:
  "flow_score (hub_candidate 0 100) = 0" "flow_score (hub_candidate 100 400) = 1"
  by (simp_all add: flow_score_def hub_sums)

lemma hub_combined:
  "combined_score {} (hub_candidate 0 100) = 4" "combined_score {} (hub_candidate 100 400) = 5"
  by (simp_all add: combined_score_def hub_flow hub_scores hub_cv)

lemma zero_fields:
  "smurf_candidates zero_engine = [hub_candidate 0 100]" "immune_accounts zero_engine = {}"
  "candidate_rings zero_engine = []"
  "smurf_candidates paid_engine = [hub_candidate 100 400]" "immune_accounts paid_engine = {}"
  "candidate_rings paid_engine = []"
  by (simp_all add: zero_engine_def paid_engine_def fresh_engine_def hub_extract)

lemma zero_not_emitted:
  "candidate_rings (score_smurf_candidates zero_graph zero_engine) = []"
  by (simp add: score_smurf_candidates_def zero_fields score_smurf_candidate_eq hub_sums)

lemma paid_emitted:
  "map members (candidate_rings (score_smurf_candidates paid_graph paid_engine))
     = [[''H'', ''P1'', ''P2'', ''P3'', ''P4'', ''P5'', ''Q'']]"
  by (simp add: score_smurf_candidates_def zero_fields score_smurf_candidate_eq hub_sums
      hub_combined hub_members)


lemma big_members:
  "card (hub_set {} big_candidate \<union> inbound_accounts {} big_candidate
         \<union> outbound_accounts {} big_candidate) = 18"
  "all_members {} big_candidate =
     [''H'', ''I01'', ''I02'', ''I03'', ''I04'', ''I05'', ''I06'', ''I07'', ''I08'', ''I09'',
      ''I10'', ''I11'', ''I12'', ''O1'', ''O2'']"
  by code_simp+



section \<open>Ingest: missing columns and rows that do not parse\<close>

lemma compute_dataset_stats_fields [simp]:
  "df (compute_dataset_stats e) = df e" "G (compute_dataset_stats e) = G e"
  "account_patterns (compute_dataset_stats e) = account_patterns e"
  "suspicion_scores (compute_dataset_stats e) = suspicion_scores e"
  "fraud_rings (compute_dataset_stats e) = fraud_rings e"
  by (simp_all add: compute_dataset_stats_def Let_def split: option.splits)

lemma load_data_raise:
  "fst (load_data pd frame e) =
     (if \<exists>c \<in> set REQUIRED_COLUMNS. c \<notin> set (columns frame)
      then Some (ValueError_missing_columns (filter (\<lambda>c. c \<notin> set (columns frame)) REQUIRED_COLUMNS))
      else None)"
  by (auto simp: load_data_def Let_def filter_empty_conv)

lemma coerce_row_cases:
  "coerce_row pd row =
     (case to_numeric pd (row ''amount'') of
        None \<Rightarrow> []
      | Some a \<Rightarrow>
          (case to_datetime pd (row ''timestamp'') of
             None \<Rightarrow> []
           | Some t \<Rightarrow>
               [\<lparr>transaction_id = astype_str pd (row ''transaction_id''),
                 sender_id = astype_str pd (row ''sender_id''),
                 receiver_id = astype_str pd (row ''receiver_id''),
                 amount = a, timestamp = t\<rparr>]))"
  by (simp add: coerce_row_def split: option.splits)

text \<open>
  C8: \<^verbatim>\<open>load_data\<close> raises iff a required column is absent, and then the engine is left
  as it was. Otherwise it raises nothing, and the table and the graph it stores are the
  rows whose amount and timestamp both parse, sorted by timestamp; a row whose amount or
  timestamp does not parse contributes nothing.
\<close>

theorem load_data_raises_iff_column_missing:
  "(fst (load_data pd frame e) \<noteq> None \<longleftrightarrow>
      (\<exists>c \<in> set REQUIRED_COLUMNS. c \<notin> set (columns frame)))
   \<and> (fst (load_data pd frame e) \<noteq> None \<longrightarrow> snd (load_data pd frame e) = e)
   \<and> (fst (load_data pd frame e) = None \<longrightarrow>
        (\<exists>d. df (snd (load_data pd frame e)) = Some d \<and> G (snd (load_data pd frame e)) = Some d
           \<and> sorted (map timestamp d)
           \<and> mset d = mset (concat (map (coerce_row pd) (rows frame)))))
   \<and> (\<forall>row. (to_numeric pd (row ''amount'') = None \<or> to_datetime pd (row ''timestamp'') = None)
          \<longrightarrow> coerce_row pd row = [])
   \<and> (\<forall>row a t. to_numeric pd (row ''amount'') = Some a \<and> to_datetime pd (row ''timestamp'') = Some t
          \<longrightarrow> coerce_row pd row =
               [\<lparr>transaction_id = astype_str pd (row ''transaction_id''),
                 sender_id = astype_str pd (row ''sender_id''),
                 receiver_id = astype_str pd (row ''receiver_id''),
                 amount = a, timestamp = t\<rparr>])"
proof (intro conjI)
  show "fst (load_data pd frame e) \<noteq> None \<longleftrightarrow>
      (\<exists>c \<in> set REQUIRED_COLUMNS. c \<notin> set (columns frame))"
    by (simp add: load_data_raise)
  show "fst (load_data pd frame e) \<noteq> None \<longrightarrow> snd (load_data pd frame e) = e"
    by (simp add: load_data_def Let_def)
  show "fst (load_data pd frame e) = None \<longrightarrow>
        (\<exists>d. df (snd (load_data pd frame e)) = Some d \<and> G (snd (load_data pd frame e)) = Some d
           \<and> sorted (map timestamp d)
           \<and> mset d = mset (concat (map (coerce_row pd) (rows frame))))"
    by (simp add: load_data_def Let_def)
  show "\<forall>row. (to_numeric pd (row ''amount'') = None \<or> to_datetime pd (row ''timestamp'') = None)
          \<longrightarrow> coerce_row pd row = []"
    by (auto simp: coerce_row_cases split: option.splits)
  show "\<forall>row a t. to_numeric pd (row ''amount'') = Some a \<and> to_datetime pd (row ''timestamp'') = Some t
          \<longrightarrow> coerce_row pd row =
               [\<lparr>transaction_id = astype_str pd (row ''transaction_id''),
                 sender_id = astype_str pd (row ''sender_id''),
                 receiver_id = astype_str pd (row ''receiver_id''),
                 amount = a, timestamp = t\<rparr>]"
    by (simp add: coerce_row_cases)
qed

lemma toy_loaded:
  "df (snd (load_data toy_pandas toy_frame fresh_engine)) =
     Some [mk_txn ''T4'' ''C'' ''A'' 100 0, mk_txn ''T1'' ''A'' ''B'' (2505 / 10) 3600]"
  unfolding load_data_def Let_def
  apply (simp add: toy_frame_def REQUIRED_COLUMNS_def)
  apply code_simp
  done

theorem load_data_raises_iff_column_missing_witness:
  "fst (load_data toy_pandas short_frame fresh_engine) = Some (ValueError_missing_columns [''amount''])
   \<and> snd (load_data toy_pandas short_frame fresh_engine) = fresh_engine
   \<and> fst (load_data toy_pandas toy_frame fresh_engine) = None
   \<and> df (snd (load_data toy_pandas toy_frame fresh_engine)) =
       Some [mk_txn ''T4'' ''C'' ''A'' 100 0, mk_txn ''T1'' ''A'' ''B'' (2505 / 10) 3600]
   \<and> G (snd (load_data toy_pandas toy_frame fresh_engine)) =
       df (snd (load_data toy_pandas toy_frame fresh_engine))
   \<and> to_numeric toy_pandas ((toy_rows ! 1) ''amount'') = None
   \<and> coerce_row toy_pandas (toy_rows ! 1) = []
   \<and> to_datetime toy_pandas ((toy_rows ! 2) ''timestamp'') = None
   \<and> coerce_row toy_pandas (toy_rows ! 2) = []"
proof -
  have 1: "fst (load_data toy_pandas short_frame fresh_engine)
      = Some (ValueError_missing_columns [''amount''])"
    by (simp add: load_data_raise short_frame_def REQUIRED_COLUMNS_def)
  have 2: "fst (load_data toy_pandas toy_frame fresh_engine) = None"
    by (simp add: load_data_raise toy_frame_def REQUIRED_COLUMNS_def)
  have 3: "to_numeric toy_pandas ((toy_rows ! 1) ''amount'') = None"
    "to_datetime toy_pandas ((toy_rows ! 2) ''timestamp'') = None"
    by code_simp+
  from load_data_raises_iff_column_missing [of toy_pandas short_frame fresh_engine]
    load_data_raises_iff_column_missing [of toy_pandas toy_frame fresh_engine]
    1 2 3 toy_loaded
  show ?thesis by auto
qed

section \<open>Shell hardening: external against internal edges\<close>

text \<open>
  Every chain that the walk emits is a path of the graph: at most four accounts, no
  account twice, each the successor of the one before.
\<close>

definition chain_path :: "graph \<Rightarrow> account list \<Rightarrow> bool" where
  "chain_path g p \<longleftrightarrow>
     distinct p \<and> (\<forall>i. Suc i < length p \<longrightarrow> p ! Suc i \<in> set (successors g (p ! i)))"

definition stack_ok :: "graph \<Rightarrow> (account \<times> account list) list \<Rightarrow> bool" where
  "stack_ok g stack \<longleftrightarrow>
     (\<forall>(current, path) \<in> set stack. path \<noteq> [] \<and> last path = current \<and> chain_path g path)"

definition chains_ok :: "graph \<Rightarrow> account list list \<Rightarrow> bool" where
  "chains_ok g results \<longleftrightarrow> (\<forall>c \<in> set results. chain_path g c \<and> length c \<le> 4)"

lemma chain_path_snoc:
  assumes "chain_path g path" "path \<noteq> []" "n \<in> set (successors g (last path))" "n \<notin> set path"
  shows "chain_path g (path @ [n])"
  unfolding chain_path_def
proof (intro conjI allI impI)
  show "distinct (path @ [n])" using assms by (simp add: chain_path_def)
  fix i assume i: "Suc i < length (path @ [n])"
  show "(path @ [n]) ! Suc i \<in> set (successors g ((path @ [n]) ! i))"
  proof (cases "Suc i < length path")
    case True
    with assms(1) show ?thesis by (simp add: chain_path_def nth_append)
  next
    case False
    with i have "Suc i = length path" by simp
    then have li: "i = length path - 1" by simp
    from \<open>Suc i = length path\<close> have "(path @ [n]) ! Suc i = n" by (simp add: nth_append)
    moreover have "(path @ [n]) ! i = last path"
      using assms(2) \<open>Suc i = length path\<close> unfolding li by (simp add: nth_append last_conv_nth)
    ultimately have "(path @ [n]) ! Suc i = n" "(path @ [n]) ! i = last path" by simp_all
    with assms(3) show ?thesis by simp
  qed
qed

lemma visit_neighbor_ok:
  assumes p: "chain_path g path" "path \<noteq> []" "length path < 4"
    and n: "n \<in> set (successors g (last path))"
    and acc: "stack_ok g (fst acc)" "chains_ok g (snd acc)"
  shows "stack_ok g (fst (visit_neighbor sc mi path acc n))
       \<and> chains_ok g (snd (visit_neighbor sc mi path acc n))"
proof (cases "n \<in> set path")
  case True
  with acc show ?thesis by (simp add: visit_neighbor_def)
next
  case False
  from chain_path_snoc [OF p(1,2) n False] have np: "chain_path g (path @ [n])" .
  with acc p(3) show ?thesis
    by (auto simp: visit_neighbor_def Let_def stack_ok_def chains_ok_def False)
qed

lemma visit_node_ok:
  assumes p: "chain_path g path" "path \<noteq> []" "length path < 4" "last path = current"
  shows "stack_ok g (fst (visit_node g sc mi current path))
       \<and> chains_ok g (snd (visit_node g sc mi current path))"
proof -
  have "stack_ok g (fst acc) \<and> chains_ok g (snd acc) \<Longrightarrow> set ns \<subseteq> set (successors g (last path)) \<Longrightarrow>
        stack_ok g (fst (foldl (visit_neighbor sc mi path) acc ns))
        \<and> chains_ok g (snd (foldl (visit_neighbor sc mi path) acc ns))" for acc ns
  proof (induction ns arbitrary: acc)
    case Nil
    then show ?case by simp
  next
    case (Cons n ns)
    from Cons.prems have "n \<in> set (successors g (last path))" by simp
    from visit_neighbor_ok [OF p(1-3) this, of acc sc mi] Cons.prems(1)
    have "stack_ok g (fst (visit_neighbor sc mi path acc n))
       \<and> chains_ok g (snd (visit_neighbor sc mi path acc n))" by simp
    from Cons.IH [OF this] Cons.prems(2) show ?case by simp
  qed
  from this [of "([], [])" "successors g current"] p(4) show ?thesis
    by (simp add: visit_node_def stack_ok_def chains_ok_def)
qed

lemma chain_loop_ok:
  "stack_ok g stack \<Longrightarrow> chains_ok g results \<Longrightarrow> chains_ok g (chain_loop g sc mi stack pf results)"
proof (induction g sc mi stack pf results rule: chain_loop.induct)
  case (1 g sc mi pf results)
  then show ?case by (simp add: chain_loop.simps)
next
  case (2 g sc mi current path stack pf results)
  from "2.prems"(1) have top: "path \<noteq> []" "last path = current" "chain_path g path"
    and rest: "stack_ok g stack" by (auto simp: stack_ok_def)
  show ?case
  proof (cases "pf \<ge> 50")
    case True
    with "2.prems"(2) show ?thesis by (simp add: chain_loop.simps)
  next
    case nf: False
    show ?thesis
    proof (cases "length path \<ge> 4")
      case True
      with nf "2.IH"(1) rest "2.prems"(2) show ?thesis by (simp add: chain_loop.simps)
    next
      case False
      then have "length path < 4" by simp
      from visit_node_ok [OF top(3) top(1) this top(2), of sc mi]
      have v: "stack_ok g (fst (visit_node g sc mi current path))"
        "chains_ok g (snd (visit_node g sc mi current path))" by simp_all
      from v(1) rest have s: "stack_ok g (fst (visit_node g sc mi current path) @ stack)"
        by (auto simp: stack_ok_def)
      from v(2) "2.prems"(2) have r: "chains_ok g (results @ snd (visit_node g sc mi current path))"
        by (auto simp: chains_ok_def)
      from "2.IH"(2) [OF nf False refl refl s r] nf False show ?thesis
        by (simp add: chain_loop.simps(2) Let_def)
    qed
  qed
qed

lemma find_shell_chains_ok:
  "chains_ok g results \<Longrightarrow> chains_ok g (find_shell_chains g start sc results mi)"
  unfolding find_shell_chains_def
  by (rule chain_loop_ok) (simp_all add: stack_ok_def chain_path_def)

lemma walk_shell_chains_ok: "chains_ok g (walk_shell_chains g sc mi)"
proof -
  have "chains_ok g acc \<Longrightarrow> chains_ok g (foldl (\<lambda>visited_chains node.
              if node \<in> sc then visited_chains
              else find_shell_chains g node sc visited_chains mi) acc ns)" for acc ns
    by (induction ns arbitrary: acc) (simp_all add: find_shell_chains_ok)
  from this [of "[]"] show ?thesis by (simp add: walk_shell_chains_def chains_ok_def)
qed


lemma adjacent_kept:
  assumes "length (filter P xs) \<ge> 3" "length xs \<le> 4"
  shows "\<exists>i. Suc i < length xs \<and> P (xs ! i) \<and> P (xs ! Suc i)"
proof -
  have "length (filter P xs) \<le> length xs" by simp
  with assms have "length xs = 3 \<or> length xs = 4" by linarith
  then show ?thesis
  proof
    assume "length xs = 3"
    then obtain a b c where xs: "xs = [a, b, c]"
      by (auto simp: length_Suc_conv numeral_3_eq_3)
    with assms(1) have "P a \<and> P b" by (auto split: if_splits)
    with xs show ?thesis by (intro exI [of _ 0]) simp
  next
    assume "length xs = 4"
    then obtain a b c d where xs: "xs = [a, b, c, d]"
      by (auto simp: length_Suc_conv numeral_eq_Suc)
    with assms(1) have "(P a \<and> P b) \<or> (P b \<and> P c) \<or> (P c \<and> P d)" by (auto split: if_splits)
    then show ?thesis
    proof (elim disjE)
      assume "P a \<and> P b" with xs show ?thesis by (intro exI [of _ 0]) simp
    next
      assume "P b \<and> P c" with xs show ?thesis by (intro exI [of _ 1]) simp
    next
      assume "P c \<and> P d" with xs show ?thesis by (intro exI [of _ 2]) simp
    qed
  qed
qed

lemma internal_edges_positive:
  assumes c: "chain_path g chain" "length chain \<le> 4"
    and k: "length (filter (\<lambda>a. a \<notin> immune) chain) \<ge> 3"
  shows "internal_edges g (set (filter (\<lambda>a. a \<notin> immune) chain)) > 0"
proof -
  let ?S = "set (filter (\<lambda>a. a \<notin> immune) chain)"
  from adjacent_kept [OF k c(2)] obtain i where i: "Suc i < length chain"
    and u: "chain ! i \<notin> immune" and v: "chain ! Suc i \<notin> immune" by blast
  from i u have uS: "chain ! i \<in> ?S" by simp
  from i v have vS: "chain ! Suc i \<in> ?S" by simp
  from c(1) i have "chain ! Suc i \<in> set (successors g (chain ! i))" by (simp add: chain_path_def)
  with vS have "chain ! Suc i \<in> set (filter (\<lambda>succ. succ \<in> ?S) (successors g (chain ! i)))"
    by simp
  then have pos: "0 < length (filter (\<lambda>succ. succ \<in> ?S) (successors g (chain ! i)))"
    by (rule length_pos_if_in_set)
  have "length (filter (\<lambda>succ. succ \<in> ?S) (successors g (chain ! i)))
        \<le> (\<Sum>m\<in>?S. length (filter (\<lambda>succ. succ \<in> ?S) (successors g m)))"
    using uS by (intro member_le_sum) auto
  with pos have "0 < (\<Sum>m\<in>?S. length (filter (\<lambda>succ. succ \<in> ?S) (successors g m)))"
    by (rule less_le_trans)
  then show ?thesis unfolding internal_edges_def .
qed

lemma harden_chain_rejected:
  assumes "hardening_rejects g (set (filter (\<lambda>a. a \<notin> immune_accounts (shell_engine st)) chain))
           \<or> length (filter (\<lambda>a. a \<notin> immune_accounts (shell_engine st)) chain) < 3"
  shows "shell_engine (harden_chain g st chain) = shell_engine st"
  using assms by (auto simp add: harden_chain_def Let_def)

text \<open>
  C5: for every chain that the walk emits, an external edge count above 0.5 times the
  internal edge count, both counted over the successors of the members that are not
  immune, makes the loop leave the engine as it was: no candidate ring and no label is
  added. This covers a chain with no internal edge and at least one external edge. A
  chain that keeps at least three members that are not immune has an internal edge, since
  two of its kept members are neighbours on the path, and rule 4 rejects it exactly when
  the external count is above 0.5 times the internal one, so not at equality.
\<close>

theorem shell_hardening_rejects_external_ratio:
  assumes "chain \<in> set (walk_shell_chains g shell_candidates min_intermediaries)"
  shows "(real (external_edges g (set (filter (\<lambda>a. a \<notin> immune_accounts (shell_engine st)) chain)))
            > 5 / 10 * real (internal_edges g (set (filter (\<lambda>a. a \<notin> immune_accounts (shell_engine st)) chain)))
          \<longrightarrow> shell_engine (harden_chain g st chain) = shell_engine st)
       \<and> (3 \<le> length (filter (\<lambda>a. a \<notin> immune_accounts (shell_engine st)) chain)
          \<longrightarrow> internal_edges g (set (filter (\<lambda>a. a \<notin> immune_accounts (shell_engine st)) chain)) > 0
              \<and> (rule4_rejects g (set (filter (\<lambda>a. a \<notin> immune_accounts (shell_engine st)) chain))
                 \<longleftrightarrow> real (external_edges g (set (filter (\<lambda>a. a \<notin> immune_accounts (shell_engine st)) chain)))
                      > 5 / 10 * real (internal_edges g (set (filter (\<lambda>a. a \<notin> immune_accounts (shell_engine st)) chain)))))"
proof -
  let ?nic = "filter (\<lambda>a. a \<notin> immune_accounts (shell_engine st)) chain"
  let ?S = "set ?nic"
  from walk_shell_chains_ok [of g shell_candidates min_intermediaries] assms
  have c: "chain_path g chain" "length chain \<le> 4" by (auto simp: chains_ok_def)
  have pos: "internal_edges g ?S > 0" if "3 \<le> length ?nic"
    using internal_edges_positive [OF c that] .
  have r: "rule4_rejects g ?S \<longleftrightarrow> real (external_edges g ?S) > 5 / 10 * real (internal_edges g ?S)"
    if "3 \<le> length ?nic"
    using pos [OF that] by (simp add: rule4_rejects_def mult.commute)
  have 1: "shell_engine (harden_chain g st chain) = shell_engine st"
    if e: "real (external_edges g ?S) > 5 / 10 * real (internal_edges g ?S)"
  proof (cases "3 \<le> length ?nic")
    case True
    with r e have "rule4_rejects g ?S" by simp
    then have "hardening_rejects g ?S" by (simp add: hardening_rejects_def)
    then show ?thesis by (intro harden_chain_rejected) simp
  next
    case False
    then show ?thesis by (intro harden_chain_rejected) simp
  qed
  from 1 pos r show ?thesis by blast
qed

text \<open>
  Two external edges against two internal ones: the chain is rejected and no ring is
  found. One external edge against two internal ones, which is equality: rule 4 does not
  reject, and the chain becomes a candidate ring.
\<close>

theorem shell_hardening_rejects_external_ratio_witness:
  "[''S'', ''C'', ''E''] \<in> set (walk_shell_chains shell_graph_ext {''C''} 1)
   \<and> external_edges shell_graph_ext {''S'', ''C'', ''E''} = 2
   \<and> internal_edges shell_graph_ext {''S'', ''C'', ''E''} = 2
   \<and> rule4_rejects shell_graph_ext {''S'', ''C'', ''E''}
   \<and> shell_engine (harden_chain shell_graph_ext shell_start [''S'', ''C'', ''E'']) = fresh_engine
   \<and> candidate_rings (collect_shell_rings shell_graph_ext {''C''} 1 fresh_engine) = []
   \<and> [''S'', ''C'', ''E''] \<in> set (walk_shell_chains shell_graph_eq {''C''} 1)
   \<and> external_edges shell_graph_eq {''S'', ''C'', ''E''} = 1
   \<and> internal_edges shell_graph_eq {''S'', ''C'', ''E''} = 2
   \<and> \<not> rule4_rejects shell_graph_eq {''S'', ''C'', ''E''}
   \<and> map members (candidate_rings (collect_shell_rings shell_graph_eq {''C''} 1 fresh_engine))
       = [[''C'', ''E'', ''S'']]"
proof -
  have w: "walk_shell_chains shell_graph_ext {''C''} 1 = [[''S'', ''C'', ''E'']]"
    "walk_shell_chains shell_graph_eq {''C''} 1 = [[''S'', ''C'', ''E'']]"
    by code_simp+
  have n: "external_edges shell_graph_ext {''S'', ''C'', ''E''} = 2"
    "internal_edges shell_graph_ext {''S'', ''C'', ''E''} = 2"
    "external_edges shell_graph_eq {''S'', ''C'', ''E''} = 1"
    "internal_edges shell_graph_eq {''S'', ''C'', ''E''} = 2"
    by code_simp+
  have i: "immune_accounts fresh_engine = {}" "shell_engine shell_start = fresh_engine"
    by (simp_all add: shell_start_def fresh_engine_def)
  have c: "candidate_rings (collect_shell_rings shell_graph_ext {''C''} 1 fresh_engine) = []"
    "map members (candidate_rings (collect_shell_rings shell_graph_eq {''C''} 1 fresh_engine))
       = [[''C'', ''E'', ''S'']]"
    by code_simp+
  from w have w': "walk_shell_chains shell_graph_ext {''C''} (Suc 0) = [[''S'', ''C'', ''E'']]"
    "walk_shell_chains shell_graph_eq {''C''} (Suc 0) = [[''S'', ''C'', ''E'']]"
    by simp_all
  from shell_hardening_rejects_external_ratio
         [of "[''S'', ''C'', ''E'']" shell_graph_ext "{''C''}" 1 shell_start]
  have a: "rule4_rejects shell_graph_ext {''S'', ''C'', ''E''}
           \<and> shell_engine (harden_chain shell_graph_ext shell_start [''S'', ''C'', ''E'']) = fresh_engine"
    by (simp add: i w' n)
  from shell_hardening_rejects_external_ratio
         [of "[''S'', ''C'', ''E'']" shell_graph_eq "{''C''}" 1 shell_start]
  have b: "\<not> rule4_rejects shell_graph_eq {''S'', ''C'', ''E''}"
    by (simp add: i w' n)
  from a b w n c show ?thesis by simp
qed

end
